theory Spec2Isabelle
  imports Main "HOL-Library.Word"
begin

unbundle bit_operations_syntax

section \<open>The log format (db/log_format.h)\<close>

type_synonym byte = "8 word"

datatype RecordType = kZeroType | kFullType | kFirstType | kMiddleType | kLastType

text \<open>The numeric values of the enumerators, as the header declares them.\<close>

fun RecordType_value :: "RecordType \<Rightarrow> nat" where
  "RecordType_value kZeroType = 0"
| "RecordType_value kFullType = 1"
| "RecordType_value kFirstType = 2"
| "RecordType_value kMiddleType = 3"
| "RecordType_value kLastType = 4"

definition kMaxRecordType :: nat where
  "kMaxRecordType = RecordType_value kLastType"

definition kBlockSize :: int where
  "kBlockSize = 32768"

definition kHeaderSize :: int where
  "kHeaderSize = 4 + 2 + 1"

section \<open>Collaborators of the log writer\<close>

text \<open>
  Modelled from the spec: the status type (leveldb/status.h is not part of the sources
  at hand). The writer only asks a status whether it is ok and hands it on unchanged, so
  a status is either \<open>OK\<close> or a failure carrying the collaborator's message.
\<close>

datatype Status = OK | NotOK string

fun ok :: "Status \<Rightarrow> bool" where
  "ok OK = True"
| "ok (NotOK _) = False"

text \<open>
  Modelled from the spec: the durability target (\<open>WritableFile\<close> of leveldb/env.h, an
  abstract class whose implementations are not part of the sources at hand), with the
  two operations the spec lists, \<open>append(bytes) -> outcome\<close> and \<open>flush() -> outcome\<close>,
  both of which may fail. The target is a test double: \<open>calls\<close> is the list of calls
  it has received so far, each with the status it answered, and \<open>script\<close> holds the
  statuses of the calls to come (an exhausted script answers \<open>OK\<close>). Every run of a
  real target answers some sequence of statuses, so quantifying over scripts covers
  every behaviour of the collaborator that the writer can observe.
\<close>

datatype call = Append "byte list" | Flush

record WritableFile =
  calls :: "(call \<times> Status) list"
  script :: "Status list"

definition answer :: "WritableFile \<Rightarrow> call \<Rightarrow> Status \<times> WritableFile" where
  "answer f c =
     (case script f of
        [] \<Rightarrow> (OK, f\<lparr>calls := calls f @ [(c, OK)]\<rparr>)
      | s # ss \<Rightarrow> (s, f\<lparr>calls := calls f @ [(c, s)], script := ss\<rparr>))"

definition WritableFile_Append :: "WritableFile \<Rightarrow> byte list \<Rightarrow> Status \<times> WritableFile" where
  "WritableFile_Append f d = answer f (Append d)"

definition WritableFile_Flush :: "WritableFile \<Rightarrow> Status \<times> WritableFile" where
  "WritableFile_Flush f = answer f Flush"

text \<open>
  Modelled from the spec: the checksum primitive (util/crc32c.h is not part of the
  sources at hand), "a streaming, seedable checksum (e.g., CRC-32C) with
  \<open>extend(seed, bytes) -> value\<close> and a fixed masking transform for storage", the
  masking being "a fixed, reversible bit rotation plus additive constant". The model is
  CRC-32C itself, bit by bit (reflected polynomial \<open>0x82F63B78\<close>), and LevelDB's
  mask: rotate right by 15 bits and add \<open>0xa282ead8\<close>. \<open>crc32c_Value\<close> is the
  checksum of a whole buffer, that is, \<open>crc32c_Extend\<close> from the seed 0.
\<close>

definition crc32c_bit :: "32 word \<Rightarrow> 32 word" where
  "crc32c_bit c = (if c AND 1 = 1 then drop_bit 1 c XOR 0x82F63B78 else drop_bit 1 c)"

definition crc32c_byte :: "byte \<Rightarrow> 32 word \<Rightarrow> 32 word" where
  "crc32c_byte b c = (crc32c_bit ^^ 8) (c XOR ucast b)"

definition crc32c_Extend :: "32 word \<Rightarrow> byte list \<Rightarrow> 32 word" where
  "crc32c_Extend init_crc data = NOT (fold crc32c_byte data (NOT init_crc))"

definition crc32c_Value :: "byte list \<Rightarrow> 32 word" where
  "crc32c_Value data = crc32c_Extend 0 data"

definition crc32c_Mask :: "32 word \<Rightarrow> 32 word" where
  "crc32c_Mask crc = (drop_bit 15 crc OR push_bit 17 crc) + 0xa282ead8"

text \<open>
  Modelled from the spec: \<open>EncodeFixed32\<close> (util/coding.h is not part of the sources at
  hand). The header is little-endian: the least significant byte comes first.
  \<open>DecodeFixed32\<close> reads the four bytes back.
\<close>

definition EncodeFixed32 :: "32 word \<Rightarrow> byte list" where
  "EncodeFixed32 v = [ucast v, ucast (drop_bit 8 v), ucast (drop_bit 16 v), ucast (drop_bit 24 v)]"

definition DecodeFixed32 :: "byte list \<Rightarrow> 32 word" where
  "DecodeFixed32 bs =
     ucast (bs ! 0) OR push_bit 8 (ucast (bs ! 1)) OR push_bit 16 (ucast (bs ! 2))
       OR push_bit 24 (ucast (bs ! 3))"

section \<open>The log writer (db/log_writer.h, db/log_writer.cc)\<close>

text \<open>
  What the writer did, in order: a \<open>Trailer\<close> for each zero padding it appended (the
  block offset it padded from, and the bytes), a \<open>Fragment\<close> for each call of
  \<open>EmitPhysicalRecord\<close> (the block offset on entry, the type, the payload and the
  status returned). The trace is an observation only: no branch of the writer reads it.
\<close>

datatype event =
    is_Trailer: Trailer int "byte list"
  | is_Fragment: Fragment int RecordType "byte list" Status

text \<open>
  The class \<open>Writer\<close>. \<open>dest_\<close> is a pointer to a file the writer does not own: the
  file is passed to every operation and returned updated. \<open>block_offset_\<close> is a C++
  \<open>int\<close>; the model is an unbounded integer, and the theorems below keep it within
  \<open>0 .. kBlockSize\<close>, where no conversion between \<open>int\<close> and \<open>size_t\<close> changes a
  value.
\<close>

record Writer =
  block_offset :: int
  type_crc :: "32 word list"
  trace :: "event list"

definition InitTypeCrc :: "32 word list" where
  "InitTypeCrc = map (\<lambda>i. crc32c_Value [of_nat i]) [0 ..< kMaxRecordType + 1]"

text \<open>\<open>Writer(WritableFile* dest)\<close>\<close>

definition Writer_new :: Writer where
  "Writer_new = \<lparr>block_offset = 0, type_crc = InitTypeCrc, trace = []\<rparr>"

text \<open>\<open>Writer(WritableFile* dest, uint64_t dest_length)\<close>\<close>

definition Writer_resume :: "64 word \<Rightarrow> Writer" where
  "Writer_resume dest_length =
     \<lparr>block_offset = uint (dest_length mod word_of_int kBlockSize),
      type_crc = InitTypeCrc, trace = []\<rparr>"

text \<open>The assertions of the source; one that fails aborts the call.\<close>

datatype assertion =
    Leftover_nonnegative
  | Avail_nonnegative
  | Length_fits_two_bytes
  | Record_fits_block

text \<open>
  \<open>EmitPhysicalRecord\<close>. The seven bytes of \<open>buf\<close> come first, as a function of the
  table \<open>type_crc_\<close>, the type and the payload (\<open>ptr\<close>, \<open>length\<close>).
\<close>

definition header :: "32 word list \<Rightarrow> RecordType \<Rightarrow> byte list \<Rightarrow> byte list" where
  "header tc t payload =
     (let n = length payload;
          crc = crc32c_Extend (tc ! RecordType_value t) payload;
          crc = crc32c_Mask crc
      in EncodeFixed32 crc @
         [word_of_nat (n AND 0xff), word_of_nat (drop_bit 8 n), word_of_nat (RecordType_value t)])"

definition EmitPhysicalRecord ::
  "Writer \<Rightarrow> WritableFile \<Rightarrow> RecordType \<Rightarrow> byte list \<Rightarrow> assertion + Status \<times> Writer \<times> WritableFile"
where
  "EmitPhysicalRecord w f t payload =
     (if \<not> length payload \<le> 0xffff then Inl Length_fits_two_bytes
      else if \<not> block_offset w + kHeaderSize + int (length payload) \<le> kBlockSize
        then Inl Record_fits_block
      else
        let buf = header (type_crc w) t payload;
            (s, f) = WritableFile_Append f buf;
            (s, f) = (if ok s then
                        (let (s, f) = WritableFile_Append f payload
                         in if ok s then WritableFile_Flush f else (s, f))
                      else (s, f));
            w = w\<lparr>block_offset := block_offset w + kHeaderSize + int (length payload),
                   trace := trace w @ [Fragment (block_offset w) t payload s]\<rparr>
        in Inr (s, w, f))"

text \<open>
  The loop of \<open>AddRecord\<close>: \<open>rest\<close> is the part of the slice still to be written (the
  pair \<open>ptr\<close>, \<open>left\<close> of the source), \<open>begin\<close> the flag of the same name.
\<close>

definition switch_block :: "Writer \<Rightarrow> WritableFile \<Rightarrow> Writer \<times> WritableFile" where
  "switch_block w f =
     (let leftover = kBlockSize - block_offset w in
      if leftover < kHeaderSize then
        (if leftover > 0 then
           (w\<lparr>block_offset := 0,
               trace := trace w @ [Trailer (block_offset w) (replicate (nat leftover) 0)]\<rparr>,
            snd (WritableFile_Append f (replicate (nat leftover) 0)))
         else (w\<lparr>block_offset := 0\<rparr>, f))
      else (w, f))"

definition fragment_type :: "bool \<Rightarrow> bool \<Rightarrow> RecordType" where
  "fragment_type begin end' =
     (if begin \<and> end' then kFullType
      else if begin then kFirstType
      else if end' then kLastType
      else kMiddleType)"

function AddRecord_loop ::
  "Writer \<Rightarrow> WritableFile \<Rightarrow> byte list \<Rightarrow> bool \<Rightarrow> assertion + Status \<times> Writer \<times> WritableFile"
where
  "AddRecord_loop w f rest begin =
     (if kBlockSize - block_offset w < 0 then Inl Leftover_nonnegative
      else
        let (w, f) = switch_block w f in
        if kBlockSize - block_offset w - kHeaderSize < 0 then Inl Avail_nonnegative
        else
          let left = length rest;
              avail = nat (kBlockSize - block_offset w - kHeaderSize);
              fragment_length = (if left < avail then left else avail);
              end' = (left = fragment_length);
              t = fragment_type begin end'
          in case EmitPhysicalRecord w f t (take fragment_length rest) of
               Inl a \<Rightarrow> Inl a
             | Inr (s, w, f) \<Rightarrow>
                 if ok s \<and> left - fragment_length > 0
                 then AddRecord_loop w f (drop fragment_length rest) False
                 else Inr (s, w, f))"
  by pat_completeness auto
termination
  apply (relation "measure (\<lambda>(w, f, rest, b). 2 * length rest + (if block_offset w = 32761 then 1 else 0))")
   apply simp
  apply (auto simp: EmitPhysicalRecord_def switch_block_def kBlockSize_def kHeaderSize_def Let_def
              split: if_splits prod.splits)
  done

declare AddRecord_loop.simps [simp del]

text \<open>\<open>Status Writer::AddRecord(const Slice& slice)\<close>: the loop entered with \<open>begin = true\<close>.\<close>

definition AddRecord ::
  "Writer \<Rightarrow> WritableFile \<Rightarrow> byte list \<Rightarrow> assertion + Status \<times> Writer \<times> WritableFile"
where
  "AddRecord w f payload = AddRecord_loop w f payload True"

text \<open>
  A caller adding one record after the other, whatever status each call returns (only an
  assertion that fails ends the run).
\<close>

fun AddRecords :: "Writer \<Rightarrow> WritableFile \<Rightarrow> byte list list \<Rightarrow> assertion + Writer \<times> WritableFile" where
  "AddRecords w f [] = Inr (w, f)"
| "AddRecords w f (r # rs) =
     (case AddRecord w f r of
        Inl a \<Rightarrow> Inl a
      | Inr (s, w', f') \<Rightarrow> AddRecords w' f' rs)"

subsection \<open>Properties of a trace\<close>

text \<open>The calls of \<open>EmitPhysicalRecord\<close> in a trace: offset on entry, type, payload, status.\<close>

fun fragments :: "event list \<Rightarrow> (int \<times> RecordType \<times> byte list \<times> Status) list" where
  "fragments [] = []"
| "fragments (Trailer off zs # es) = fragments es"
| "fragments (Fragment off t p s # es) = (off, t, p, s) # fragments es"

text \<open>
  \<open>layout off es\<close>: the events \<open>es\<close> lay out a log from block offset \<open>off\<close> on, and
  where they end. A trailer stands where fewer than \<open>kHeaderSize\<close> but more than 0 bytes
  remain in the block, consists of exactly that many zero bytes, and takes the offset to
  0. A fragment starts at 0 when fewer than \<open>kHeaderSize\<close> bytes remain (then none
  remains: a trailer has filled the rest) and at the current offset otherwise, and its
  header and payload end within the block. The result is the offset after the last event,
  \<open>None\<close> when an event is out of place.
\<close>

fun layout :: "int \<Rightarrow> event list \<Rightarrow> int option" where
  "layout off [] = Some off"
| "layout off (Trailer at zs # es) =
     (if at = off \<and> 0 < kBlockSize - off \<and> kBlockSize - off < kHeaderSize
         \<and> zs = replicate (nat (kBlockSize - off)) 0
         \<and> (case es of Fragment _ _ _ _ # _ \<Rightarrow> True | _ \<Rightarrow> False)
      then layout 0 es else None)"
| "layout off (Fragment at t p s # es) =
     (if (if kBlockSize - off < kHeaderSize then off = kBlockSize \<and> at = 0 else at = off)
         \<and> 0 \<le> at \<and> at + kHeaderSize + int (length p) \<le> kBlockSize
      then layout (at + kHeaderSize + int (length p)) es else None)"

text \<open>
  \<open>carved begin rest fs\<close>: the fragments \<open>fs\<close> carve the payload \<open>rest\<close> from the front.
  Each carries the next \<open>min remaining avail\<close> bytes, where \<open>avail\<close> is what the block has
  left after the header at the fragment's offset, and its type is given by whether it is
  the first fragment (\<open>begin\<close>) and whether it is the last, that is, carries all that
  remained of the payload.
\<close>

fun carved :: "bool \<Rightarrow> byte list \<Rightarrow> (int \<times> RecordType \<times> byte list \<times> Status) list \<Rightarrow> bool" where
  "carved begin rest [] = True"
| "carved begin rest ((at, t, p, s) # fs) =
     (length p = min (length rest) (nat (kBlockSize - at - kHeaderSize))
      \<and> p = take (length p) rest
      \<and> t = (if begin \<and> length p = length rest then kFullType
              else if begin then kFirstType
              else if length p = length rest then kLastType
              else kMiddleType)
      \<and> carved False (drop (length p) rest) fs)"

text \<open>
  \<open>typed_by_position is_first complete fs\<close>: each of the fragments \<open>fs\<close> has the type of
  its position in the list. \<open>is_first\<close> says that the head of \<open>fs\<close> is the first
  fragment of the logical record, \<open>complete\<close> that the last element of \<open>fs\<close> is the last
  fragment of the logical record (nothing of the payload is left after it). A fragment is
  the last one when it is the last element of the list and the list is complete; every
  element that another one follows is not the last. The type is Full for a fragment that
  is first and last, First for one that is first but not last, Last for one that is last
  but not first, Middle otherwise.
\<close>

fun typed_by_position ::
  "bool \<Rightarrow> bool \<Rightarrow> (int \<times> RecordType \<times> byte list \<times> Status) list \<Rightarrow> bool" where
  "typed_by_position is_first complete [] = True"
| "typed_by_position is_first complete ((at, t, p, s) # fs) =
     (let is_last = (fs = [] \<and> complete) in
      t = (if is_first \<and> is_last then kFullType
           else if is_first then kFirstType
           else if is_last then kLastType
           else kMiddleType)
      \<and> typed_by_position False complete fs)"

text \<open>
  \<open>emitted hdr p cs s\<close>: the calls \<open>cs\<close> are those of one physical record with header
  \<open>hdr\<close> and payload \<open>p\<close>, and \<open>s\<close> is the status of the last of them: the header is
  appended; the payload is appended only after the header's append was ok; the file is
  flushed only after both were. Nothing follows a call that was not ok.
\<close>

definition emitted :: "byte list \<Rightarrow> byte list \<Rightarrow> (call \<times> Status) list \<Rightarrow> Status \<Rightarrow> bool" where
  "emitted hdr p cs s =
     (cs = [(Append hdr, s)] \<and> \<not> ok s
      \<or> cs = [(Append hdr, OK), (Append p, s)] \<and> \<not> ok s
      \<or> cs = [(Append hdr, OK), (Append p, OK), (Flush, s)])"

text \<open>
  \<open>replay tc es cs\<close>: the calls \<open>cs\<close> that the file received are those of the events
  \<open>es\<close>, in order and with nothing in between: one append of its bytes for a trailer
  (whatever status it returned), and for a fragment the append of its header, then, only
  if that was ok, the append of its payload, then, only if that was ok too, the flush;
  the status of the fragment is that of the last of its calls.
\<close>

fun replay :: "32 word list \<Rightarrow> event list \<Rightarrow> (call \<times> Status) list \<Rightarrow> bool" where
  "replay tc [] cs = (cs = [])"
| "replay tc (Trailer at zs # es) cs =
     (case cs of
        (Append d, s) # cs' \<Rightarrow> d = zs \<and> replay tc es cs'
      | _ \<Rightarrow> False)"
| "replay tc (Fragment at t p s # es) cs =
     (case cs of
        (Append h, s1) # cs1 \<Rightarrow>
          h = header tc t p \<and>
          (if \<not> ok s1 then s = s1 \<and> replay tc es cs1
           else case cs1 of
                  (Append d, s2) # cs2 \<Rightarrow>
                    d = p \<and>
                    (if \<not> ok s2 then s = s2 \<and> replay tc es cs2
                     else case cs2 of
                            (Flush, s3) # cs3 \<Rightarrow> s = s3 \<and> replay tc es cs3
                          | _ \<Rightarrow> False)
                | _ \<Rightarrow> False)
      | _ \<Rightarrow> False)"

text \<open>
  The length field of a header as a reader decodes it: bytes 4 and 5, little-endian
  (section 6 of the spec).
\<close>

definition length_field :: "byte list \<Rightarrow> nat" where
  "length_field hdr = unat (hdr ! 4) + 256 * unat (hdr ! 5)"

section \<open>The skip list (db/skiplist.h)\<close>

text \<open>
  Nodes live in an arena and are never freed. The model of the arena is the list of the
  nodes allocated so far; a pointer to a node is its index in the list, \<open>None\<close> is
  \<open>nullptr\<close>. A node holds its key and the array \<open>next_\<close> of its links, one for each
  level below its height. Loads and stores are modelled for a single thread, where the
  memory orders of the source make no difference.
\<close>

record 'k Node =
  key :: 'k
  nexts :: "nat option list"

definition kMaxHeight :: nat where
  "kMaxHeight = 12"

definition kBranching :: nat where
  "kBranching = 4"

text \<open>
  Modelled from the spec: the random source (\<open>Random\<close> of util/random.h is not part of
  the sources at hand). The skip list only asks it \<open>OneIn(kBranching)\<close>; the model of
  its state is the list of the answers it will give (an exhausted list answers false).
  Every run of a real generator gives some sequence of answers, so quantifying over the
  lists covers every behaviour of the generator.
\<close>

fun OneIn :: "bool list \<Rightarrow> nat \<Rightarrow> bool \<times> bool list" where
  "OneIn [] n = (False, [])"
| "OneIn (b # bs) n = (b, bs)"

text \<open>
  The class \<open>SkipList\<close>. \<open>compare_\<close> is the comparator (negative, zero or positive),
  \<open>max_height_\<close> and the levels are \<open>int\<close> in the source and never negative; \<open>head_\<close>
  is the first node allocated, at index 0.
\<close>

record 'k SkipList =
  comparator :: "'k \<Rightarrow> 'k \<Rightarrow> int"
  arena :: "'k Node list"
  max_height :: nat
  rnd :: "bool list"

definition head :: nat where
  "head = 0"

text \<open>
  \<open>NewNode\<close>: the address of the new node, and the arena with it. The source leaves the
  links of a new node uninitialised; the model has them \<open>nullptr\<close>, and \<open>Insert\<close> and the
  constructor write every one of them before anything reads it.
\<close>

definition NewNode :: "'k Node list \<Rightarrow> 'k \<Rightarrow> nat \<Rightarrow> nat \<times> 'k Node list" where
  "NewNode ar k height = (length ar, ar @ [\<lparr>key = k, nexts = replicate height None\<rparr>])"

text \<open>
  The constructor: the head is allocated with the key 0 ("any key will do") and
  \<open>kMaxHeight\<close> links, all set to \<open>nullptr\<close>; \<open>max_height_\<close> is 1. The generator is seeded
  with a constant in the source and is given here.
\<close>

definition SkipList_new :: "('k::zero \<Rightarrow> 'k \<Rightarrow> int) \<Rightarrow> bool list \<Rightarrow> 'k SkipList" where
  "SkipList_new c r =
     \<lparr>comparator = c, arena = snd (NewNode [] 0 kMaxHeight), max_height = 1, rnd = r\<rparr>"

text \<open>
  Reading memory. A call has no result in the model (\<open>None\<close>) when it follows a pointer
  to no node or reads a link at a level that the node does not have, where the source has
  undefined behaviour, when an assertion of the source fails, and when a loop does not
  terminate.
\<close>

definition deref :: "'k Node list \<Rightarrow> nat \<Rightarrow> 'k Node option" where
  "deref ar x = (if x < length ar then Some (ar ! x) else None)"

definition Next :: "'k Node list \<Rightarrow> nat \<Rightarrow> nat \<Rightarrow> nat option option" where
  "Next ar x n = (case deref ar x of
                    None \<Rightarrow> None
                  | Some node \<Rightarrow> if n < length (nexts node) then Some (nexts node ! n) else None)"

definition SetNext :: "'k Node list \<Rightarrow> nat \<Rightarrow> nat \<Rightarrow> nat option \<Rightarrow> 'k Node list option" where
  "SetNext ar x n v = (case deref ar x of
                         None \<Rightarrow> None
                       | Some node \<Rightarrow>
                           if n < length (nexts node)
                           then Some (ar[x := node\<lparr>nexts := (nexts node)[n := v]\<rparr>])
                           else None)"

definition Equal :: "'k SkipList \<Rightarrow> 'k \<Rightarrow> 'k \<Rightarrow> bool" where
  "Equal l a b = (comparator l a b = 0)"

definition KeyIsAfterNode :: "'k SkipList \<Rightarrow> 'k \<Rightarrow> nat option \<Rightarrow> bool option" where
  "KeyIsAfterNode l k n =
     (case n of
        None \<Rightarrow> Some False
      | Some a \<Rightarrow> (case deref (arena l) a of
                     None \<Rightarrow> None
                   | Some node \<Rightarrow> Some (comparator l (key node) k < 0)))"

text \<open>\<open>RandomHeight\<close>: the generator is asked only while the height is below the maximum.\<close>

function RandomHeight_loop :: "nat \<Rightarrow> bool list \<Rightarrow> nat \<times> bool list" where
  "RandomHeight_loop height r =
     (if height < kMaxHeight then
        (let (b, r') = OneIn r kBranching
         in if b then RandomHeight_loop (height + 1) r' else (height, r'))
      else (height, r))"
  by pat_completeness auto
termination
  by (relation "measure (\<lambda>(height, r). kMaxHeight - height)") auto

declare RandomHeight_loop.simps [simp del]

definition RandomHeight :: "bool list \<Rightarrow> nat \<times> bool list" where
  "RandomHeight r = RandomHeight_loop 1 r"

text \<open>
  \<open>FindGreaterOrEqual\<close>: the loop from node \<open>x\<close> at \<open>level\<close>. \<open>prev\<close> is \<open>None\<close> for
  \<open>nullptr\<close> and otherwise the array of the caller, whose slots are \<open>None\<close> until
  written. The result is the node found (or \<open>nullptr\<close>) and the array. The searches start
  at the head on level \<open>GetMaxHeight() - 1\<close>; with \<open>max_height_\<close> 0 that level would be
  negative and \<open>Next\<close> would fail its assertion.
\<close>

partial_function (option) FindGreaterOrEqual_loop ::
  "'k SkipList \<Rightarrow> 'k \<Rightarrow> nat \<Rightarrow> nat \<Rightarrow> nat option list option
     \<Rightarrow> (nat option \<times> nat option list option) option"
where
  "FindGreaterOrEqual_loop l k x level prev =
     (case Next (arena l) x level of
        None \<Rightarrow> None
      | Some nxt \<Rightarrow>
          (case KeyIsAfterNode l k nxt of
             None \<Rightarrow> None
           | Some after \<Rightarrow>
               if after then FindGreaterOrEqual_loop l k (the nxt) level prev
               else
                 let prev = map_option (\<lambda>p. p[level := Some x]) prev in
                 if level = 0 then Some (nxt, prev)
                 else FindGreaterOrEqual_loop l k x (level - 1) prev))"

declare FindGreaterOrEqual_loop.simps [code]

definition FindGreaterOrEqual ::
  "'k SkipList \<Rightarrow> 'k \<Rightarrow> nat option list option \<Rightarrow> (nat option \<times> nat option list option) option"
where
  "FindGreaterOrEqual l k prev =
     (if max_height l = 0 then None
      else FindGreaterOrEqual_loop l k head (max_height l - 1) prev)"

partial_function (option) FindLessThan_loop ::
  "'k SkipList \<Rightarrow> 'k \<Rightarrow> nat \<Rightarrow> nat \<Rightarrow> nat option"
where
  "FindLessThan_loop l k x level =
     (case deref (arena l) x of
        None \<Rightarrow> None
      | Some node \<Rightarrow>
          if \<not> (x = head \<or> comparator l (key node) k < 0) then None
          else
            (case Next (arena l) x level of
               None \<Rightarrow> None
             | Some nxt \<Rightarrow>
                 (case nxt of
                    None \<Rightarrow> if level = 0 then Some x else FindLessThan_loop l k x (level - 1)
                  | Some a \<Rightarrow>
                      (case deref (arena l) a of
                         None \<Rightarrow> None
                       | Some n \<Rightarrow>
                           if comparator l (key n) k \<ge> 0
                           then (if level = 0 then Some x else FindLessThan_loop l k x (level - 1))
                           else FindLessThan_loop l k a level))))"

declare FindLessThan_loop.simps [code]

definition FindLessThan :: "'k SkipList \<Rightarrow> 'k \<Rightarrow> nat option" where
  "FindLessThan l k =
     (if max_height l = 0 then None else FindLessThan_loop l k head (max_height l - 1))"

partial_function (option) FindLast_loop :: "'k SkipList \<Rightarrow> nat \<Rightarrow> nat \<Rightarrow> nat option" where
  "FindLast_loop l x level =
     (case Next (arena l) x level of
        None \<Rightarrow> None
      | Some nxt \<Rightarrow>
          (case nxt of
             None \<Rightarrow> if level = 0 then Some x else FindLast_loop l x (level - 1)
           | Some a \<Rightarrow> FindLast_loop l a level))"

declare FindLast_loop.simps [code]

definition FindLast :: "'k SkipList \<Rightarrow> nat option" where
  "FindLast l = (if max_height l = 0 then None else FindLast_loop l head (max_height l - 1))"

text \<open>
  \<open>Insert\<close>. The loop that links the new node \<open>x\<close> in runs over the levels below its
  height: at each it copies the link of \<open>prev[i]\<close> into \<open>x\<close> and then points \<open>prev[i]\<close>
  to \<open>x\<close>.
\<close>

fun link_levels :: "nat \<Rightarrow> nat option list \<Rightarrow> nat list \<Rightarrow> 'k Node list \<Rightarrow> 'k Node list option" where
  "link_levels x prev [] ar = Some ar"
| "link_levels x prev (i # levels) ar =
     (case prev ! i of
        None \<Rightarrow> None
      | Some p \<Rightarrow>
          (case Next ar p i of
             None \<Rightarrow> None
           | Some n \<Rightarrow>
               (case SetNext ar x i n of
                  None \<Rightarrow> None
                | Some ar1 \<Rightarrow>
                    (case SetNext ar1 p i (Some x) of
                       None \<Rightarrow> None
                     | Some ar2 \<Rightarrow> link_levels x prev levels ar2))))"

definition Insert :: "'k SkipList \<Rightarrow> 'k \<Rightarrow> 'k SkipList option" where
  "Insert l k =
     (case FindGreaterOrEqual l k (Some (replicate kMaxHeight None)) of
        None \<Rightarrow> None
      | Some (x, prev) \<Rightarrow>
          (case (case x of None \<Rightarrow> Some True
                 | Some a \<Rightarrow> map_option (\<lambda>n. \<not> Equal l k (key n)) (deref (arena l) a)) of
             None \<Rightarrow> None
           | Some distinct_key \<Rightarrow>
               if \<not> distinct_key then None
               else
                 let (height, r) = RandomHeight (rnd l);
                     prev = (if height > max_height l
                             then fold (\<lambda>i p. p[i := Some head]) [max_height l ..< height] (the prev)
                             else the prev);
                     mh = (if height > max_height l then height else max_height l);
                     (x, ar) = NewNode (arena l) k height
                 in case link_levels x prev [0 ..< height] ar of
                      None \<Rightarrow> None
                    | Some ar' \<Rightarrow> Some (l\<lparr>arena := ar', max_height := mh, rnd := r\<rparr>)))"

definition Contains :: "'k SkipList \<Rightarrow> 'k \<Rightarrow> bool option" where
  "Contains l k =
     (case FindGreaterOrEqual l k None of
        None \<Rightarrow> None
      | Some (x, prev) \<Rightarrow>
          (case x of
             None \<Rightarrow> Some False
           | Some a \<Rightarrow> map_option (\<lambda>n. Equal l k (key n)) (deref (arena l) a)))"

text \<open>
  The iterator: \<open>node_\<close> (the list it walks is passed to each operation). \<open>key\<close>, \<open>Next\<close>
  and \<open>Prev\<close> assert that the iterator is valid.
\<close>

record Iterator =
  node :: "nat option"

definition Iterator_new :: Iterator where
  "Iterator_new = \<lparr>node = None\<rparr>"

definition Valid :: "Iterator \<Rightarrow> bool" where
  "Valid it = (node it \<noteq> None)"

definition Iterator_key :: "'k SkipList \<Rightarrow> Iterator \<Rightarrow> 'k option" where
  "Iterator_key l it =
     (case node it of None \<Rightarrow> None | Some a \<Rightarrow> map_option key (deref (arena l) a))"

definition Iterator_Next :: "'k SkipList \<Rightarrow> Iterator \<Rightarrow> Iterator option" where
  "Iterator_Next l it =
     (case node it of
        None \<Rightarrow> None
      | Some a \<Rightarrow> map_option (\<lambda>n. \<lparr>node = n\<rparr>) (Next (arena l) a 0))"

definition Iterator_Prev :: "'k SkipList \<Rightarrow> Iterator \<Rightarrow> Iterator option" where
  "Iterator_Prev l it =
     (case Iterator_key l it of
        None \<Rightarrow> None
      | Some k \<Rightarrow>
          map_option (\<lambda>x. \<lparr>node = (if x = head then None else Some x)\<rparr>) (FindLessThan l k))"

definition Seek :: "'k SkipList \<Rightarrow> 'k \<Rightarrow> Iterator option" where
  "Seek l target = map_option (\<lambda>(x, prev). \<lparr>node = x\<rparr>) (FindGreaterOrEqual l target None)"

definition SeekToFirst :: "'k SkipList \<Rightarrow> Iterator option" where
  "SeekToFirst l = map_option (\<lambda>n. \<lparr>node = n\<rparr>) (Next (arena l) head 0)"

definition SeekToLast :: "'k SkipList \<Rightarrow> Iterator option" where
  "SeekToLast l =
     map_option (\<lambda>x. \<lparr>node = (if x = head then None else Some x)\<rparr>) (FindLast l)"

subsection \<open>Callers\<close>

text \<open>A single writer inserting one key after the other.\<close>

fun Inserts :: "'k SkipList \<Rightarrow> 'k list \<Rightarrow> 'k SkipList option" where
  "Inserts l [] = Some l"
| "Inserts l (k # ks) = (case Insert l k of None \<Rightarrow> None | Some l' \<Rightarrow> Inserts l' ks)"

text \<open>
  A reader walking the list: while the iterator is valid, take its key and call \<open>Next\<close>.
  The result is the list of the keys visited, in the order of the visits.
\<close>

partial_function (option) visit :: "'k SkipList \<Rightarrow> Iterator \<Rightarrow> 'k list \<Rightarrow> 'k list option" where
  "visit l it seen =
     (if Valid it then
        (case Iterator_key l it of
           None \<Rightarrow> None
         | Some k \<Rightarrow>
             (case Iterator_Next l it of
                None \<Rightarrow> None
              | Some it' \<Rightarrow> visit l it' (seen @ [k])))
      else Some seen)"

declare visit.simps [code]

definition scan :: "'k SkipList \<Rightarrow> 'k list option" where
  "scan l = (case SeekToFirst l of None \<Rightarrow> None | Some it \<Rightarrow> visit l it [])"

text \<open>
  What the comparator must be for the list to be an ordered set of keys: a strict total
  order on the keys, in which only a key itself compares equal to it.
\<close>

definition total_order :: "('k \<Rightarrow> 'k \<Rightarrow> int) \<Rightarrow> bool" where
  "total_order c =
     ((\<forall>a b. (c a b = 0) = (a = b))
      \<and> (\<forall>a b. (c a b < 0) = (c b a > 0))
      \<and> (\<forall>a b d. c a b < 0 \<and> c b d < 0 \<longrightarrow> c a d < 0))"

subsection \<open>The invariant of the skip list\<close>

text \<open>The height of the node at an address: the number of its links.\<close>

definition ht :: "'k Node list \<Rightarrow> nat \<Rightarrow> nat" where
  "ht ar a = length (nexts (ar ! a))"

text \<open>
  \<open>linked ar as\<close>: along the list \<open>as\<close> of addresses, the link of each node at each of
  its levels points to the first node after it that has that level, and is \<open>nullptr\<close>
  when there is none.
\<close>

fun linked :: "'k Node list \<Rightarrow> nat list \<Rightarrow> bool" where
  "linked ar [] = True"
| "linked ar (a # post) =
     ((\<forall>lev < ht ar a. nexts (ar ! a) ! lev = find (\<lambda>b. lev < ht ar b) post) \<and> linked ar post)"

text \<open>
  \<open>skiplist_inv l xs\<close>: the list \<open>l\<close> holds the nodes at the addresses \<open>xs\<close>, in this
  order after the head: they are distinct nodes of the arena other than the head, each of
  a height between 1 and \<open>max_height_\<close>, their keys strictly increase under the
  comparator, and the links of the head (of height \<open>kMaxHeight\<close>) and of the nodes are
  those of \<open>linked\<close>.
\<close>

definition skiplist_inv :: "'k SkipList \<Rightarrow> nat list \<Rightarrow> bool" where
  "skiplist_inv l xs =
     (arena l \<noteq> [] \<and> ht (arena l) head = kMaxHeight
      \<and> 1 \<le> max_height l \<and> max_height l \<le> kMaxHeight
      \<and> distinct xs
      \<and> (\<forall>a \<in> set xs. 0 < a \<and> a < length (arena l)
             \<and> 1 \<le> ht (arena l) a \<and> ht (arena l) a \<le> max_height l)
      \<and> sorted_wrt (\<lambda>a b. comparator l (key (arena l ! a)) (key (arena l ! b)) < 0) xs
      \<and> linked (arena l) (head # xs))"

section \<open>The log writer: what a call of AddRecord does\<close>

lemma ok_iff: "ok s \<longleftrightarrow> s = OK"
  by (cases s) simp_all

lemma answer_calls: "answer f c = (s, f') \<Longrightarrow> calls f' = calls f @ [(c, s)]"
  by (auto simp: answer_def split: list.splits)

lemma EmitPhysicalRecord_Inr:
  assumes "length p \<le> 65535" "block_offset w + kHeaderSize + int (length p) \<le> kBlockSize"
  shows "\<exists>s f'. EmitPhysicalRecord w f t p =
           Inr (s, w\<lparr>block_offset := block_offset w + kHeaderSize + int (length p),
                     trace := trace w @ [Fragment (block_offset w) t p s]\<rparr>, f')
         \<and> (\<exists>cs. calls f' = calls f @ cs \<and> emitted (header (type_crc w) t p) p cs s)"
proof -
  obtain s1 f1 where a1: "WritableFile_Append f (header (type_crc w) t p) = (s1, f1)"
    by (cases "WritableFile_Append f (header (type_crc w) t p)")
  obtain s2 f2 where a2: "WritableFile_Append f1 p = (s2, f2)"
    by (cases "WritableFile_Append f1 p")
  obtain s3 f3 where a3: "WritableFile_Flush f2 = (s3, f3)"
    by (cases "WritableFile_Flush f2")
  have c1: "calls f1 = calls f @ [(Append (header (type_crc w) t p), s1)]"
    using a1 by (simp add: WritableFile_Append_def answer_calls)
  have c2: "calls f2 = calls f1 @ [(Append p, s2)]"
    using a2 by (simp add: WritableFile_Append_def answer_calls)
  have c3: "calls f3 = calls f2 @ [(Flush, s3)]"
    using a3 by (simp add: WritableFile_Flush_def answer_calls)
  show ?thesis
    using assms a1 a2 a3 c1 c2 c3
    by (auto simp: EmitPhysicalRecord_def Let_def emitted_def ok_iff)
qed

lemma replay_Trailer_iff:
  "replay tc (Trailer at zs # es) cs \<longleftrightarrow> (\<exists>st cs'. cs = (Append zs, st) # cs' \<and> replay tc es cs')"
  by (auto split: list.splits prod.splits call.splits)

lemma replay_FragmentI:
  "emitted (header tc t p) p c1 s \<Longrightarrow> replay tc es cs' \<Longrightarrow> replay tc (Fragment at t p s # es) (c1 @ cs')"
  by (auto simp: emitted_def ok_iff)

lemma replay_FragmentD:
  assumes "replay tc (Fragment at t p s # es) cs"
  shows "\<exists>c1 cs'. cs = c1 @ cs' \<and> emitted (header tc t p) p c1 s \<and> replay tc es cs'"
proof -
  from assms obtain s1 cs1 where 1: "cs = (Append (header tc t p), s1) # cs1"
    by (auto split: list.splits prod.splits call.splits)
  show ?thesis
  proof (cases "ok s1")
    case False
    with assms 1 have "s = s1" "replay tc es cs1" by auto
    with 1 False have "cs = [(Append (header tc t p), s)] @ cs1 \<and>
        emitted (header tc t p) p [(Append (header tc t p), s)] s \<and> replay tc es cs1"
      by (simp add: emitted_def)
    then show ?thesis by blast
  next
    case True
    with assms 1 obtain s2 cs2 where 2: "cs1 = (Append p, s2) # cs2"
      by (auto split: list.splits prod.splits call.splits)
    show ?thesis
    proof (cases "ok s2")
      case False
      with assms 1 2 True have "s = s2" "replay tc es cs2" by auto
      with 1 2 True False have "cs = [(Append (header tc t p), OK), (Append p, s)] @ cs2 \<and>
          emitted (header tc t p) p [(Append (header tc t p), OK), (Append p, s)] s \<and> replay tc es cs2"
        by (simp add: emitted_def ok_iff)
      then show ?thesis by blast
    next
      case ok2: True
      with assms 1 2 True obtain cs3 where 3: "cs2 = (Flush, s) # cs3" "replay tc es cs3"
        by (auto split: list.splits prod.splits call.splits)
      with 1 2 True ok2 have "cs = [(Append (header tc t p), OK), (Append p, OK), (Flush, s)] @ cs3 \<and>
          emitted (header tc t p) p [(Append (header tc t p), OK), (Append p, OK), (Flush, s)] s \<and> replay tc es cs3"
        by (simp add: emitted_def ok_iff)
      then show ?thesis by blast
    qed
  qed
qed

lemma replay_TrailerI:
  "replay tc es cs' \<Longrightarrow> replay tc (Trailer at zs # es) ((Append zs, st) # cs')"
  by simp

lemma replay_TrailerD:
  assumes "replay tc (Trailer at zs # es) cs"
  shows "\<exists>st cs'. cs = (Append zs, st) # cs' \<and> replay tc es cs'"
  using assms by (simp only: replay_Trailer_iff)

lemma replay_append:
  "replay tc es1 cs1 \<Longrightarrow> replay tc es2 cs2 \<Longrightarrow> replay tc (es1 @ es2) (cs1 @ cs2)"
proof (induction es1 arbitrary: cs1)
  case Nil
  then show ?case by simp
next
  case (Cons e es1)
  show ?case
  proof (cases e)
    case (Trailer at zs)
    from Cons.prems(1) have "replay tc (Trailer at zs # es1) cs1"
      by (simp only: Trailer)
    from replay_TrailerD[OF this]
    obtain st cs' where c: "cs1 = (Append zs, st) # cs'" "replay tc es1 cs'"
      by blast
    have "replay tc (Trailer at zs # (es1 @ es2)) ((Append zs, st) # (cs' @ cs2))"
      using Cons.IH[OF c(2) Cons.prems(2)] by (rule replay_TrailerI)
    then show ?thesis
      by (simp only: Trailer c(1) append_Cons)
  next
    case (Fragment at t p s)
    from Cons.prems(1) have "replay tc (Fragment at t p s # es1) cs1"
      by (simp only: Fragment)
    from replay_FragmentD[OF this]
    obtain c1 cs' where c: "cs1 = c1 @ cs'" "emitted (header tc t p) p c1 s" "replay tc es1 cs'"
      by blast
    have "replay tc (Fragment at t p s # (es1 @ es2)) (c1 @ (cs' @ cs2))"
      using c(2) Cons.IH[OF c(3) Cons.prems(2)] by (rule replay_FragmentI)
    then show ?thesis
      by (simp only: Fragment c(1) append_Cons append_assoc)
  qed
qed

lemma replay_emitted:
  "emitted (header tc t p) p cs s \<Longrightarrow> replay tc [Fragment at t p s] cs"
  using replay_FragmentI[of tc t p cs s "[]" "[]" at] by simp

lemma AddRecord_loop_run:
  assumes "0 \<le> block_offset w" "block_offset w \<le> kBlockSize"
  shows "\<exists>s w' f' es. AddRecord_loop w f rest b = Inr (s, w', f')
      \<and> trace w' = trace w @ es \<and> type_crc w' = type_crc w
      \<and> layout (block_offset w) es = Some (block_offset w')
      \<and> 0 \<le> block_offset w' \<and> block_offset w' \<le> kBlockSize
      \<and> fragments es \<noteq> []
      \<and> is_Fragment (last es)
      \<and> carved b rest (fragments es)
      \<and> list_all (\<lambda>(at, t, p, s'). ok s') (butlast (fragments es))
      \<and> snd (snd (snd (last (fragments es)))) = s
      \<and> (ok s \<longrightarrow> concat (map (\<lambda>(at, t, p, s'). p) (fragments es)) = rest)
      \<and> (\<exists>cs. calls f' = calls f @ cs \<and> replay (type_crc w) es cs)
      \<and> typed_by_position b (concat (map (\<lambda>(at, t, p, s'). p) (fragments es)) = rest)
            (fragments es)"
  using assms
proof (induction "2 * length rest + (if block_offset w = 32761 then 1 else 0 :: nat)"
        arbitrary: w f rest b rule: less_induct)
  case less
  define off1 where "off1 = (if kBlockSize - block_offset w < kHeaderSize then 0 else block_offset w)"
  define pre where "pre =
    (if kBlockSize - block_offset w < kHeaderSize \<and> 0 < kBlockSize - block_offset w
     then [Trailer (block_offset w) (replicate (nat (kBlockSize - block_offset w)) 0)] else [])"
  define w1 where "w1 = w\<lparr>block_offset := off1, trace := trace w @ pre\<rparr>"
  have "\<exists>f1 c0. switch_block w f = (w1, f1) \<and> calls f1 = calls f @ c0 \<and> replay (type_crc w) pre c0"
  proof (cases "kBlockSize - block_offset w < kHeaderSize \<and> 0 < kBlockSize - block_offset w")
    case True
    obtain st f1 where a: "WritableFile_Append f (replicate (nat (kBlockSize - block_offset w)) 0) = (st, f1)"
      by (cases "WritableFile_Append f (replicate (nat (kBlockSize - block_offset w)) 0)")
    then have "calls f1 = calls f @ [(Append (replicate (nat (kBlockSize - block_offset w)) 0), st)]"
      by (simp add: WritableFile_Append_def answer_calls)
    with True a show ?thesis
      by (simp add: off1_def pre_def w1_def switch_block_def Let_def)
  next
    case False
    then show ?thesis
      unfolding off1_def pre_def w1_def switch_block_def Let_def
      by (cases "kBlockSize - block_offset w < kHeaderSize"; simp)
  qed
  then obtain f1 c0 where sb: "switch_block w f = (w1, f1)"
    and c0: "calls f1 = calls f @ c0" "replay (type_crc w) pre c0" by blast
  define fl where "fl = min (length rest) (nat (kBlockSize - off1 - kHeaderSize))"
  have off1: "0 \<le> off1" "off1 \<le> 32761"
    using less.prems by (auto simp: off1_def kBlockSize_def kHeaderSize_def)
  have fl: "fl \<le> 32761" "off1 + 7 + int fl \<le> 32768" "fl \<le> length rest"
    using off1 by (auto simp: fl_def kBlockSize_def kHeaderSize_def)
  define t where "t = fragment_type b (length rest = fl)"
  define w2 where "w2 s = w1\<lparr>block_offset := off1 + kHeaderSize + int fl,
                     trace := trace w @ pre @ [Fragment off1 t (take fl rest) s]\<rparr>" for s
  obtain s f2 c1 where em: "EmitPhysicalRecord w1 f1 t (take fl rest) = Inr (s, w2 s, f2)"
    and c1: "calls f2 = calls f1 @ c1" "emitted (header (type_crc w) t (take fl rest)) (take fl rest) c1 s"
    using EmitPhysicalRecord_Inr[of "take fl rest" w1 f1 t] fl
    by (auto simp: w1_def w2_def kBlockSize_def kHeaderSize_def min_absorb2)
  have g1: "\<not> kBlockSize - block_offset w < 0"
    using less.prems by simp
  have b1: "block_offset w1 = off1"
    by (simp add: w1_def)
  have g2: "\<not> kBlockSize - off1 - kHeaderSize < 0"
    using off1 by (simp add: kBlockSize_def kHeaderSize_def)
  have flx: "(if length rest < nat (kBlockSize - off1 - kHeaderSize) then length rest
              else nat (kBlockSize - off1 - kHeaderSize)) = fl"
    by (simp add: fl_def min_def)
  have unfold: "AddRecord_loop w f rest b =
      (if ok s \<and> 0 < length rest - fl then AddRecord_loop (w2 s) f2 (drop fl rest) False
       else Inr (s, w2 s, f2))"
    apply (subst AddRecord_loop.simps)
    apply (simp only: g1 if_False sb prod.case Let_def b1 g2 flx)
    apply (simp only: t_def[symmetric] em sum.case prod.case)
    done
  have lay: "layout (block_offset w) (pre @ Fragment off1 t (take fl rest) s # es') =
             layout (off1 + kHeaderSize + int fl) es'" for es'
    using less.prems fl
    by (auto simp: pre_def off1_def kBlockSize_def kHeaderSize_def min_absorb2)
  have frs: "fragments (pre @ Fragment off1 t (take fl rest) s # es') =
             (off1, t, take fl rest, s) # fragments es'" for es'
    by (simp add: pre_def)
  have car: "carved b rest ((off1, t, take fl rest, s) # fs) = carved False (drop fl rest) fs" for fs
    using fl by (auto simp: t_def fragment_type_def fl_def min_absorb2)
  show ?case
  proof (cases "ok s \<and> 0 < length rest - fl")
    case False
    let ?es = "pre @ [Fragment off1 t (take fl rest) s]"
    have "AddRecord_loop w f rest b = Inr (s, w2 s, f2)"
      by (subst unfold) (use False in auto)
    moreover have "trace (w2 s) = trace w @ ?es" "type_crc (w2 s) = type_crc w"
      by (simp_all add: w2_def w1_def)
    moreover have "layout (block_offset w) ?es = Some (block_offset (w2 s))"
      using lay[of "[]"] by (simp add: w2_def)
    moreover have "0 \<le> block_offset (w2 s)" "block_offset (w2 s) \<le> kBlockSize"
      using off1 fl by (simp_all add: w2_def kBlockSize_def kHeaderSize_def)
    moreover have "fragments ?es = [(off1, t, take fl rest, s)]"
      using frs[of "[]"] by simp
    moreover have "is_Fragment (last ?es)"
      by simp
    moreover have "carved b rest [(off1, t, take fl rest, s)]"
      using car[of "[]"] by simp
    moreover have "ok s \<longrightarrow> take fl rest = rest"
      using False by auto
    moreover have "calls f2 = calls f @ (c0 @ c1)"
      using c0 c1 by simp
    moreover have "replay (type_crc w) ?es (c0 @ c1)"
      using c0(2) replay_emitted[OF c1(2)] by (rule replay_append)
    moreover have "typed_by_position b (concat (map (\<lambda>(at, t, p, s'). p) (fragments ?es)) = rest)
                     (fragments ?es)"
    proof -
      have "(take fl rest = rest) = (length rest = fl)"
        using fl(3) by (metis length_take min_absorb2 take_all_iff order_refl)
      then show ?thesis
        using frs[of "[]"] by (simp add: t_def fragment_type_def)
    qed
    ultimately show ?thesis
      by (intro exI[of _ s] exI[of _ "w2 s"] exI[of _ f2] exI[of _ ?es]) auto
  next
    case True
    have dec: "2 * length (drop fl rest) + (if block_offset (w2 s) = 32761 then 1 else 0)
             < 2 * length rest + (if block_offset w = 32761 then 1 else 0)"
    proof (cases "fl = 0")
      case False
      then show ?thesis using fl by auto
    next
      case fl0: True
      with True have "nat (kBlockSize - off1 - kHeaderSize) = 0"
        by (auto simp: fl_def min_def split: if_splits)
      with off1 have "off1 = 32761"
        by (simp add: kBlockSize_def kHeaderSize_def)
      then have "block_offset w = 32761"
        by (auto simp: off1_def split: if_splits)
      moreover have "block_offset (w2 s) = 32768"
        using \<open>off1 = 32761\<close> fl0 by (simp add: w2_def kHeaderSize_def)
      ultimately show ?thesis by simp
    qed
    have b2: "0 \<le> block_offset (w2 s)" "block_offset (w2 s) \<le> kBlockSize"
      using off1 fl by (simp_all add: w2_def kBlockSize_def kHeaderSize_def)
    from less.hyps[OF dec b2, of f2 False]
    obtain s' w' f' es' where ih:
      "AddRecord_loop (w2 s) f2 (drop fl rest) False = Inr (s', w', f')"
      "trace w' = trace (w2 s) @ es'" "type_crc w' = type_crc (w2 s)"
      "layout (block_offset (w2 s)) es' = Some (block_offset w')"
      "0 \<le> block_offset w'" "block_offset w' \<le> kBlockSize"
      "fragments es' \<noteq> []"
      "is_Fragment (last es')"
      "carved False (drop fl rest) (fragments es')"
      "list_all (\<lambda>(at, t, p, s'). ok s') (butlast (fragments es'))"
      "snd (snd (snd (last (fragments es')))) = s'"
      "ok s' \<longrightarrow> concat (map (\<lambda>(at, t, p, s'). p) (fragments es')) = drop fl rest"
      "\<exists>cs. calls f' = calls f2 @ cs \<and> replay (type_crc (w2 s)) es' cs"
      "typed_by_position False (concat (map (\<lambda>(at, t, p, s'). p) (fragments es')) = drop fl rest)
         (fragments es')"
      by blast
    from ih(13) obtain c2 where c2: "calls f' = calls f2 @ c2" "replay (type_crc w) es' c2"
      by (auto simp: w2_def w1_def)
    let ?es = "pre @ Fragment off1 t (take fl rest) s # es'"
    have ne: "es' \<noteq> []"
      using ih(7) by auto
    have "AddRecord_loop w f rest b = Inr (s', w', f')"
      by (subst unfold) (use True ih(1) in auto)
    moreover have "trace w' = trace w @ ?es" "type_crc w' = type_crc w"
      using ih(2,3) by (simp_all add: w2_def w1_def)
    moreover have "layout (block_offset w) ?es = Some (block_offset w')"
      using lay[of es'] ih(4) by (simp add: w2_def)
    moreover have "fragments ?es = (off1, t, take fl rest, s) # fragments es'"
      by (rule frs)
    moreover have "is_Fragment (last ?es)"
      using ne ih(8) by simp
    moreover have "carved b rest ((off1, t, take fl rest, s) # fragments es')"
      using car ih(9) by simp
    moreover have "ok s' \<longrightarrow> take fl rest @ concat (map (\<lambda>(at, t, p, s'). p) (fragments es')) = rest"
      using ih(12) by auto
    moreover have "calls f' = calls f @ (c0 @ c1 @ c2)"
      using c0 c1 c2 by simp
    moreover have "replay (type_crc w) ?es (c0 @ c1 @ c2)"
      using c0(2) replay_FragmentI[OF c1(2) c2(2)] by (rule replay_append)
    moreover have "typed_by_position b (concat (map (\<lambda>(at, t, p, s'). p) (fragments ?es)) = rest)
                     (fragments ?es)"
    proof -
      let ?c = "concat (map (\<lambda>(at, t, p, s'). p) (fragments es'))"
      have "take fl rest @ drop fl rest = rest"
        by simp
      then have "(take fl rest @ ?c = rest) = (?c = drop fl rest)"
        by (metis same_append_eq)
      moreover have "length rest \<noteq> fl"
        using True by auto
      ultimately show ?thesis
        using frs[of es'] ih(7,14) by (simp add: t_def fragment_type_def)
    qed
    ultimately show ?thesis
      using ih(5,6,7,10,11) True
      by (intro exI[of _ s'] exI[of _ w'] exI[of _ f'] exI[of _ ?es]) auto
  qed
qed

lemma layout_append:
  "layout off es1 = Some m \<Longrightarrow> es1 = [] \<or> is_Fragment (last es1) \<Longrightarrow>
   layout off (es1 @ es2) = layout m es2"
proof (induction off es1 rule: layout.induct)
  case (1 off)
  then show ?case by simp
next
  case (2 off at zs es)
  from "2.prems" have ne: "es \<noteq> []"
    by (auto split: if_splits)
  then obtain e es' where es: "es = e # es'"
    by (cases es) auto
  with "2.prems" "2.IH" show ?case
    by (auto split: if_splits event.splits)
next
  case (3 off at t p s es)
  then show ?case
    by (cases "es = []") (auto split: if_splits)
qed

lemma layout_fragments:
  "layout off es = Some m \<Longrightarrow>
   list_all (\<lambda>(at, t, p, s). 0 \<le> at \<and> at + kHeaderSize + int (length p) \<le> kBlockSize) (fragments es)"
  by (induction off es rule: layout.induct) (auto split: if_splits)

lemma carved_prefix:
  "carved b rest fs \<Longrightarrow> \<exists>n. concat (map (\<lambda>(at, t, p, s). p) fs) = take n rest"
proof (induction fs arbitrary: b rest)
  case Nil
  have "[] = take 0 rest" by simp
  then show ?case by auto
next
  case (Cons x fs)
  obtain at t p s where x: "x = (at, t, p, s)" by (cases x) auto
  from Cons.prems x have p: "p = take (length p) rest" and c: "carved False (drop (length p) rest) fs"
    by auto
  let ?q = "concat (map (\<lambda>(at, t, p, s). p) fs)"
  from Cons.IH[OF c] obtain n where q: "?q = take n (drop (length p) rest)"
    by blast
  have "take (length p + n) rest = take (length p) rest @ take n (drop (length p) rest)"
    by (simp add: take_add)
  with p q have "p @ ?q = take (length p + n) rest"
    by simp
  then show ?case
    using x by auto
qed

lemma AddRecords_run:
  assumes "0 \<le> block_offset w" "block_offset w \<le> kBlockSize"
  shows "\<exists>w' f' es. AddRecords w f rs = Inr (w', f')
      \<and> trace w' = trace w @ es \<and> type_crc w' = type_crc w
      \<and> layout (block_offset w) es = Some (block_offset w')
      \<and> 0 \<le> block_offset w' \<and> block_offset w' \<le> kBlockSize
      \<and> (es = [] \<or> is_Fragment (last es))
      \<and> (\<exists>cs. calls f' = calls f @ cs \<and> replay (type_crc w) es cs)"
  using assms
proof (induction rs arbitrary: w f)
  case Nil
  then show ?case by simp
next
  case (Cons r rs)
  from AddRecord_loop_run[OF Cons.prems, of f r True]
  obtain s w1 f1 es1 c1 where 1:
    "AddRecord w f r = Inr (s, w1, f1)" "trace w1 = trace w @ es1" "type_crc w1 = type_crc w"
    "layout (block_offset w) es1 = Some (block_offset w1)"
    "0 \<le> block_offset w1" "block_offset w1 \<le> kBlockSize"
    "fragments es1 \<noteq> []" "is_Fragment (last es1)"
    "calls f1 = calls f @ c1" "replay (type_crc w) es1 c1"
    unfolding AddRecord_def by blast
  from Cons.IH[OF 1(5,6), of f1]
  obtain w' f' es2 c2 where 2:
    "AddRecords w1 f1 rs = Inr (w', f')" "trace w' = trace w1 @ es2" "type_crc w' = type_crc w1"
    "layout (block_offset w1) es2 = Some (block_offset w')"
    "0 \<le> block_offset w'" "block_offset w' \<le> kBlockSize"
    "es2 = [] \<or> is_Fragment (last es2)"
    "calls f' = calls f1 @ c2" "replay (type_crc w1) es2 c2"
    by blast
  have ne: "es1 \<noteq> []"
    using 1(7) by auto
  have "AddRecords w f (r # rs) = Inr (w', f')"
    using 1(1) 2(1) by simp
  moreover have "trace w' = trace w @ (es1 @ es2)" "type_crc w' = type_crc w"
    using 1 2 by simp_all
  moreover have "layout (block_offset w) (es1 @ es2) = Some (block_offset w')"
    using layout_append[OF 1(4), of es2] 1(8) 2(4) by simp
  moreover have "es1 @ es2 = [] \<or> is_Fragment (last (es1 @ es2))"
    using ne 1(8) 2(7) by (cases "es2 = []") auto
  moreover have "calls f' = calls f @ (c1 @ c2)"
    using 1(9) 2(8) by simp
  moreover have "replay (type_crc w) (es1 @ es2) (c1 @ c2)"
    using 1(10) 2(9) 1(3) by (simp add: replay_append)
  ultimately show ?case
    using 2(5,6) by blast
qed

lemma Writer_resume_offset:
  "block_offset (Writer_resume L) = uint L mod kBlockSize"
  "0 \<le> block_offset (Writer_resume L)" "block_offset (Writer_resume L) < kBlockSize"
  by (simp_all add: Writer_resume_def kBlockSize_def uint_mod)

lemma Writer_new_resume: "Writer_new = Writer_resume 0"
  by (simp add: Writer_new_def Writer_resume_def)

lemma crc32c_Extend_append:
  "crc32c_Extend (crc32c_Extend c a) b = crc32c_Extend c (a @ b)"
  by (simp add: crc32c_Extend_def)

lemma crc32c_streaming: "crc32c_Extend (crc32c_Value a) b = crc32c_Value (a @ b)"
  by (simp add: crc32c_Value_def crc32c_Extend_append)

lemma InitTypeCrc_nth:
  "InitTypeCrc ! RecordType_value t = crc32c_Value [word_of_nat (RecordType_value t)]"
proof -
  have "RecordType_value t < kMaxRecordType + 1"
    by (cases t) (simp_all add: kMaxRecordType_def)
  then show ?thesis
    unfolding InitTypeCrc_def by (simp del: upt_Suc)
qed

lemma DecodeFixed32_EncodeFixed32: "DecodeFixed32 (EncodeFixed32 v) = v"
  unfolding DecodeFixed32_def EncodeFixed32_def
  apply (rule bit_word_eqI)
  apply (auto simp: bit_simps)
  subgoal for n by (cases "n < 24") auto
  done

lemma length_field_header:
  assumes "length p \<le> 65535"
  shows "length_field (header tc t p) = length p"
proof -
  let ?n = "length p"
  have "?n AND 0xff = take_bit 8 ?n"
    by (simp add: take_bit_eq_mask mask_eq_exp_minus_1)
  then have a: "unat (word_of_nat (?n AND 0xff) :: byte) = ?n mod 256"
    by (simp add: unat_of_nat take_bit_eq_mod)
  have "drop_bit 8 ?n < 256"
    using assms by (simp add: drop_bit_eq_div)
  then have b: "unat (word_of_nat (drop_bit 8 ?n) :: byte) = ?n div 256"
    by (simp add: unat_of_nat drop_bit_eq_div)
  show ?thesis
    by (simp add: length_field_def header_def Let_def EncodeFixed32_def a b)
qed

section \<open>The log writer: the claims\<close>

text \<open>
  C7. For every existing file length, the writer constructed with that length starts at
  block offset "length mod 32768" (which lies in 0 ..< 32768), and the next \<open>AddRecord\<close>
  continues from there: it returns without a failed assertion, the events it performs lay
  out the log from that offset on, not from 0, and its fragments carve the payload by what
  the partially filled block has left.
\<close>
theorem Writer_resume_continues_block:
  "block_offset (Writer_resume dest_length) = uint dest_length mod 32768
   \<and> 0 \<le> block_offset (Writer_resume dest_length)
   \<and> block_offset (Writer_resume dest_length) < kBlockSize
   \<and> (\<exists>s w' f'. AddRecord (Writer_resume dest_length) f payload = Inr (s, w', f')
         \<and> layout (uint dest_length mod 32768) (trace w') = Some (block_offset w')
         \<and> carved True payload (fragments (trace w')))"
proof -
  let ?w = "Writer_resume dest_length"
  have b: "0 \<le> block_offset ?w" "block_offset ?w \<le> kBlockSize"
    using Writer_resume_offset[of dest_length] by simp_all
  from AddRecord_loop_run[OF b, of f payload True]
  obtain s w' f' es where
    "AddRecord ?w f payload = Inr (s, w', f')" "trace w' = trace ?w @ es"
    "layout (block_offset ?w) es = Some (block_offset w')" "carved True payload (fragments es)"
    unfolding AddRecord_def by blast
  moreover have "trace ?w = []"
    by (simp add: Writer_resume_def)
  ultimately show ?thesis
    using Writer_resume_offset[of dest_length] by (auto simp: kBlockSize_def)
qed

lemma replicate_numeral_Cons: "replicate (numeral k) x = x # replicate (pred_numeral k) x"
  by (simp add: numeral_eq_Suc)

lemma Writer_resume_eq:
  "Writer_resume L = \<lparr>block_offset = uint L mod 32768, type_crc = InitTypeCrc, trace = []\<rparr>"
  by (simp add: Writer_resume_def kBlockSize_def uint_mod)

lemmas eval_writer =
  AddRecord_def AddRecord_loop.simps Writer_resume_eq kBlockSize_def kHeaderSize_def
  switch_block_def Let_def WritableFile_Append_def WritableFile_Flush_def answer_def
  EmitPhysicalRecord_def fragment_type_def replicate_numeral_Cons

text \<open>
  C9. Whenever \<open>EmitPhysicalRecord\<close> returns, whatever status the appends and the flush
  gave, the block offset has advanced by the header size plus the fragment length: the
  increment is unconditional, and a failure does not roll the offset back. The witness is
  a call whose header append fails.
\<close>
theorem EmitPhysicalRecord_advances_offset_whatever_status:
  "EmitPhysicalRecord w f t p = Inr (s, w', f') \<Longrightarrow>
   block_offset w' = block_offset w + kHeaderSize + int (length p)"
  by (auto simp: EmitPhysicalRecord_def Let_def split: if_splits prod.splits)

theorem EmitPhysicalRecord_advances_offset_witness:
  "EmitPhysicalRecord (Writer_resume 100) \<lparr>calls = [], script = [NotOK ''disk full'']\<rparr> kFullType [1, 2, 3]
     = Inr (NotOK ''disk full'',
            \<lparr>block_offset = 110, type_crc = InitTypeCrc,
               trace = [Fragment 100 kFullType [1, 2, 3] (NotOK ''disk full'')]\<rparr>,
            \<lparr>calls = [(Append (header InitTypeCrc kFullType [1, 2, 3]), NotOK ''disk full'')], script = []\<rparr>)
   \<and> block_offset \<lparr>block_offset = 110, type_crc = InitTypeCrc,
               trace = [Fragment 100 kFullType [1, 2, 3] (NotOK ''disk full'')]\<rparr>
       = block_offset (Writer_resume 100) + kHeaderSize + int (length [1, 2, 3 :: byte])"
proof -
  have e: "EmitPhysicalRecord (Writer_resume 100) \<lparr>calls = [], script = [NotOK ''disk full'']\<rparr> kFullType [1, 2, 3]
     = Inr (NotOK ''disk full'',
            \<lparr>block_offset = 110, type_crc = InitTypeCrc,
               trace = [Fragment 100 kFullType [1, 2, 3] (NotOK ''disk full'')]\<rparr>,
            \<lparr>calls = [(Append (header InitTypeCrc kFullType [1, 2, 3]), NotOK ''disk full'')], script = []\<rparr>)"
    by (simp add: eval_writer)
  from EmitPhysicalRecord_advances_offset_whatever_status[OF e] e show ?thesis
    by simp
qed


text \<open>
  C5. A writer as constructed, after any sequence of \<open>AddRecord\<close> calls, still holds the
  table that its constructor computed (\<open>InitTypeCrc\<close>: at index t the checksum of the
  single byte t). The header that \<open>EmitPhysicalRecord\<close> then appends for a fragment of
  type t and payload p stores in its first four bytes Mask (Extend (seed t, p)),
  little-endian, and t in its last byte; and the stored value, read back, is the masked
  checksum of the type byte followed by the payload.
\<close>
theorem header_checksum_is_masked_crc_of_type_and_payload:
  assumes "AddRecords (Writer_resume dest_length) f0 rs = Inr (w, f1)"
    and "EmitPhysicalRecord w f t p = Inr (s, w', f')"
  shows "type_crc w = InitTypeCrc
     \<and> (\<exists>st cs. calls f' = calls f @ (Append (header (type_crc w) t p), st) # cs)
     \<and> take 4 (header (type_crc w) t p)
           = EncodeFixed32 (crc32c_Mask (crc32c_Extend (type_crc w ! RecordType_value t) p))
     \<and> type_crc w ! RecordType_value t = crc32c_Value [word_of_nat (RecordType_value t)]
     \<and> header (type_crc w) t p ! 6 = word_of_nat (RecordType_value t)
     \<and> DecodeFixed32 (take 4 (header (type_crc w) t p))
           = crc32c_Mask (crc32c_Value (word_of_nat (RecordType_value t) # p))"
proof -
  have b: "0 \<le> block_offset (Writer_resume dest_length)"
    "block_offset (Writer_resume dest_length) \<le> kBlockSize"
    using Writer_resume_offset[of dest_length] by simp_all
  from AddRecords_run[OF b, of f0 rs] assms(1)
  have "type_crc w = type_crc (Writer_resume dest_length)"
    by auto
  then have tc: "type_crc w = InitTypeCrc"
    by (simp add: Writer_resume_def)
  from assms(2) have pre: "length p \<le> 65535" "block_offset w + kHeaderSize + int (length p) \<le> kBlockSize"
    by (auto simp: EmitPhysicalRecord_def split: if_splits)
  from EmitPhysicalRecord_Inr[OF pre, of f t] assms(2)
  obtain cs where cs: "calls f' = calls f @ cs" "emitted (header (type_crc w) t p) p cs s"
    by auto
  then have 1: "\<exists>st cs'. calls f' = calls f @ (Append (header (type_crc w) t p), st) # cs'"
    by (auto simp: emitted_def)
  have 2: "take 4 (header (type_crc w) t p)
           = EncodeFixed32 (crc32c_Mask (crc32c_Extend (type_crc w ! RecordType_value t) p))"
    by (simp add: header_def Let_def EncodeFixed32_def)
  have 3: "header (type_crc w) t p ! 6 = word_of_nat (RecordType_value t)"
    by (simp add: header_def Let_def EncodeFixed32_def)
  have 5: "type_crc w ! RecordType_value t = crc32c_Value [word_of_nat (RecordType_value t)]"
    unfolding tc by (rule InitTypeCrc_nth)
  have "crc32c_Extend (type_crc w ! RecordType_value t) p
        = crc32c_Value (word_of_nat (RecordType_value t) # p)"
    using crc32c_streaming[of "[word_of_nat (RecordType_value t)]" p] by (simp add: 5)
  then have 4: "DecodeFixed32 (take 4 (header (type_crc w) t p))
           = crc32c_Mask (crc32c_Value (word_of_nat (RecordType_value t) # p))"
    by (simp only: 2 DecodeFixed32_EncodeFixed32)
  from tc 1 2 3 4 5 show ?thesis
    by blast
qed

theorem header_checksum_witness:
  "AddRecords (Writer_resume 100) \<lparr>calls = [], script = []\<rparr> []
     = Inr (Writer_resume 100, \<lparr>calls = [], script = []\<rparr>)
   \<and> EmitPhysicalRecord (Writer_resume 100) \<lparr>calls = [], script = []\<rparr> kFirstType [7, 8]
       = Inr (OK, \<lparr>block_offset = 109, type_crc = InitTypeCrc,
                    trace = [Fragment 100 kFirstType [7, 8] OK]\<rparr>,
              \<lparr>calls = [(Append (header InitTypeCrc kFirstType [7, 8]), OK), (Append [7, 8], OK),
                         (Flush, OK)], script = []\<rparr>)
   \<and> type_crc (Writer_resume 100) = InitTypeCrc
   \<and> DecodeFixed32 (take 4 (header InitTypeCrc kFirstType [7, 8]))
       = crc32c_Mask (crc32c_Value [2, 7, 8])"
proof -
  have a: "AddRecords (Writer_resume 100) \<lparr>calls = [], script = []\<rparr> []
     = Inr (Writer_resume 100, \<lparr>calls = [], script = []\<rparr>)"
    by simp
  have e: "EmitPhysicalRecord (Writer_resume 100) \<lparr>calls = [], script = []\<rparr> kFirstType [7, 8]
       = Inr (OK, \<lparr>block_offset = 109, type_crc = InitTypeCrc,
                    trace = [Fragment 100 kFirstType [7, 8] OK]\<rparr>,
              \<lparr>calls = [(Append (header InitTypeCrc kFirstType [7, 8]), OK), (Append [7, 8], OK),
                         (Flush, OK)], script = []\<rparr>)"
    by (simp add: eval_writer)
  from header_checksum_is_masked_crc_of_type_and_payload[OF a e]
  have c: "type_crc (Writer_resume 100) = InitTypeCrc"
    and "DecodeFixed32 (take 4 (header (type_crc (Writer_resume 100)) kFirstType [7, 8]))
        = crc32c_Mask (crc32c_Value [word_of_nat (RecordType_value kFirstType), 7, 8])"
    by blast+
  then have "DecodeFixed32 (take 4 (header InitTypeCrc kFirstType [7, 8]))
        = crc32c_Mask (crc32c_Value [2, 7, 8])"
    by simp
  with a e c show ?thesis
    by blast
qed

text \<open>
  C10. From a writer as constructed for any file length, through any sequence of
  \<open>AddRecord\<close> calls on any file, no assertion fails (neither the two of \<open>AddRecord\<close>, so
  that block size - offset - header size is never negative, nor the two of
  \<open>EmitPhysicalRecord\<close>), and every fragment emitted has a length of at most 32761,
  which fits the two-byte length field (the field of its header reads back as the length)
  and, with the header, the block.
\<close>
theorem fragment_length_fits_field_and_block:
  "\<exists>w' f'. AddRecords (Writer_resume dest_length) f rs = Inr (w', f')
     \<and> list_all (\<lambda>(at, t, p, s).
          length p \<le> 32761 \<and> length p \<le> 0xffff
          \<and> length_field (header (type_crc w') t p) = length p
          \<and> 0 \<le> kBlockSize - at - kHeaderSize
          \<and> at + kHeaderSize + int (length p) \<le> kBlockSize) (fragments (trace w'))"
proof -
  let ?w = "Writer_resume dest_length"
  have b: "0 \<le> block_offset ?w" "block_offset ?w \<le> kBlockSize"
    using Writer_resume_offset[of dest_length] by simp_all
  from AddRecords_run[OF b, of f rs]
  obtain w' f' es where r: "AddRecords ?w f rs = Inr (w', f')" "trace w' = trace ?w @ es"
    "layout (block_offset ?w) es = Some (block_offset w')"
    by blast
  have t: "trace w' = es"
    using r(2) by (simp add: Writer_resume_def)
  have "list_all (\<lambda>(at, t, p, s). 0 \<le> at \<and> at + kHeaderSize + int (length p) \<le> kBlockSize) (fragments es)"
    using layout_fragments[OF r(3)] .
  then have "list_all (\<lambda>(at, t, p, s).
          length p \<le> 32761 \<and> length p \<le> 0xffff
          \<and> length_field (header (type_crc w') t p) = length p
          \<and> 0 \<le> kBlockSize - at - kHeaderSize
          \<and> at + kHeaderSize + int (length p) \<le> kBlockSize) (fragments es)"
    by (rule list.pred_mono_strong) (auto simp: length_field_header kBlockSize_def kHeaderSize_def)
  with r(1) t show ?thesis
    by auto
qed

text \<open>
  C2. From any block offset in 0 ..< 32768, through any sequence of \<open>AddRecord\<close> calls on
  any file, no assertion fails and the events performed lay out the log (\<open>layout\<close>):
  where fewer than 7 bytes remain in the block the writer appends exactly that many zero
  bytes as a trailer (none when none remains) and emits the next fragment at offset 0, and
  every fragment emitted satisfies offset + 7 + length <= 32768, so that no header
  straddles a block boundary. The calls the file received are exactly those of the events
  (\<open>replay\<close>).
\<close>
theorem header_never_straddles_block:
  assumes "0 \<le> block_offset w" "block_offset w < kBlockSize"
  shows "\<exists>w' f' es cs. AddRecords w f rs = Inr (w', f')
     \<and> trace w' = trace w @ es
     \<and> calls f' = calls f @ cs \<and> replay (type_crc w) es cs
     \<and> layout (block_offset w) es = Some (block_offset w')
     \<and> list_all (\<lambda>(at, t, p, s). 0 \<le> at \<and> at + kHeaderSize + int (length p) \<le> kBlockSize)
          (fragments es)"
proof -
  from assms have b: "0 \<le> block_offset w" "block_offset w \<le> kBlockSize"
    by simp_all
  from AddRecords_run[OF b, of f rs]
  obtain w' f' es cs where r: "AddRecords w f rs = Inr (w', f')" "trace w' = trace w @ es"
    "layout (block_offset w) es = Some (block_offset w')"
    "calls f' = calls f @ cs" "replay (type_crc w) es cs"
    by blast
  with layout_fragments[OF r(3)] show ?thesis
    by blast
qed

theorem header_never_straddles_block_witness:
  "0 \<le> block_offset (Writer_resume 32764) \<and> block_offset (Writer_resume 32764) < kBlockSize
   \<and> AddRecords (Writer_resume 32764) \<lparr>calls = [], script = []\<rparr> [[1, 2, 3], []]
       = Inr (\<lparr>block_offset = 17, type_crc = InitTypeCrc,
                 trace = [Trailer 32764 [0, 0, 0, 0], Fragment 0 kFullType [1, 2, 3] OK,
                          Fragment 10 kFullType [] OK]\<rparr>,
              \<lparr>calls = [(Append [0, 0, 0, 0], OK),
                         (Append (header InitTypeCrc kFullType [1, 2, 3]), OK),
                         (Append [1, 2, 3], OK), (Flush, OK),
                         (Append (header InitTypeCrc kFullType []), OK),
                         (Append [], OK), (Flush, OK)], script = []\<rparr>)
   \<and> layout 32764 [Trailer 32764 [0, 0, 0, 0], Fragment 0 kFullType [1, 2, 3] OK,
                     Fragment 10 kFullType [] OK] = Some 17"
  using header_never_straddles_block[of "Writer_resume 32764" "\<lparr>calls = [], script = []\<rparr>" "[[1, 2, 3], []]"]
  by (simp add: eval_writer)


text \<open>
  C3. For every payload, the empty one included, \<open>AddRecord\<close> returns and has emitted
  at least one fragment. Each fragment carries the next min (remaining bytes, block size -
  offset - header size) bytes of the payload (\<open>carved\<close>). Each fragment has the type of
  its position among the fragments of the logical record (\<open>typed_by_position\<close>): Full if
  it is both the first and the last, First if first but not last, Last if last but not
  first, Middle otherwise. "Last" is the last fragment of the logical record, the one
  after which nothing of the payload is left; a fragment that another one follows is
  never the last.

  In a call that returns ok the fragments emitted are all the fragments of the record:
  they carry the whole payload, and the last of the record is the last one emitted, so
  that the types are those of the positions in the list of emitted fragments.

  In a call that fails the loop has stopped early: every fragment emitted but the last
  one returned ok, the last one emitted returned the status of the call, and the
  fragments emitted are the first fragments of the record. The last one emitted is the
  last of the record only if the fragments emitted carry the whole payload; otherwise it
  is typed First (when it is the only one) or Middle, as the fragment of the record that
  it is.
\<close>
theorem AddRecord_fragments_payload:
  assumes "0 \<le> block_offset w" "block_offset w \<le> kBlockSize"
  shows "\<exists>s w' f' es. AddRecord w f payload = Inr (s, w', f')
     \<and> trace w' = trace w @ es
     \<and> fragments es \<noteq> []
     \<and> carved True payload (fragments es)
     \<and> typed_by_position True (concat (map (\<lambda>(at, t, p, s'). p) (fragments es)) = payload)
           (fragments es)
     \<and> list_all (\<lambda>(at, t, p, s'). ok s') (butlast (fragments es))
     \<and> snd (snd (snd (last (fragments es)))) = s
     \<and> (ok s \<longrightarrow> concat (map (\<lambda>(at, t, p, s'). p) (fragments es)) = payload
                \<and> typed_by_position True True (fragments es))"
proof -
  from AddRecord_loop_run[OF assms, of f payload True]
  obtain s w' f' es where r:
    "AddRecord w f payload = Inr (s, w', f')" "trace w' = trace w @ es"
    "fragments es \<noteq> []" "carved True payload (fragments es)"
    "list_all (\<lambda>(at, t, p, s'). ok s') (butlast (fragments es))"
    "snd (snd (snd (last (fragments es)))) = s"
    "ok s \<longrightarrow> concat (map (\<lambda>(at, t, p, s'). p) (fragments es)) = payload"
    "typed_by_position True (concat (map (\<lambda>(at, t, p, s'). p) (fragments es)) = payload)
       (fragments es)"
    unfolding AddRecord_def by blast
  have "typed_by_position True True (fragments es)" if "ok s"
    using r(7,8) that by simp
  with r show ?thesis
    by blast
qed

theorem AddRecord_fragments_payload_witness:
  "0 \<le> block_offset (Writer_resume 32755) \<and> block_offset (Writer_resume 32755) \<le> kBlockSize
   \<and> AddRecord (Writer_resume 32755) \<lparr>calls = [], script = []\<rparr> [1, 2, 3, 4, 5, 6, 7, 8]
       = Inr (OK, \<lparr>block_offset = 9, type_crc = InitTypeCrc,
                    trace = [Fragment 32755 kFirstType [1, 2, 3, 4, 5, 6] OK,
                             Fragment 0 kLastType [7, 8] OK]\<rparr>,
              \<lparr>calls = [(Append (header InitTypeCrc kFirstType [1, 2, 3, 4, 5, 6]), OK),
                         (Append [1, 2, 3, 4, 5, 6], OK), (Flush, OK),
                         (Append (header InitTypeCrc kLastType [7, 8]), OK),
                         (Append [7, 8], OK), (Flush, OK)], script = []\<rparr>)
   \<and> carved True [1, 2, 3, 4, 5, 6, 7, 8]
         [(32755, kFirstType, [1, 2, 3, 4, 5, 6], OK), (0, kLastType, [7, 8], OK)]
   \<and> typed_by_position True True
         [(32755, kFirstType, [1, 2, 3, 4, 5, 6], OK), (0, kLastType, [7, 8], OK)]
   \<and> AddRecord (Writer_resume 32755)
         \<lparr>calls = [], script = [OK, NotOK ''disk full'']\<rparr> [1, 2, 3, 4, 5, 6, 7, 8]
       = Inr (NotOK ''disk full'',
              \<lparr>block_offset = 32768, type_crc = InitTypeCrc,
                 trace = [Fragment 32755 kFirstType [1, 2, 3, 4, 5, 6] (NotOK ''disk full'')]\<rparr>,
              \<lparr>calls = [(Append (header InitTypeCrc kFirstType [1, 2, 3, 4, 5, 6]), OK),
                         (Append [1, 2, 3, 4, 5, 6], NotOK ''disk full'')], script = []\<rparr>)
   \<and> typed_by_position True False [(32755, kFirstType, [1, 2, 3, 4, 5, 6], NotOK ''disk full'')]
   \<and> \<not> typed_by_position True True [(32755, kFirstType, [1, 2, 3, 4, 5, 6], NotOK ''disk full'')]
   \<and> \<not> typed_by_position True True [(0, kFullType, [1, 2], OK), (9, kLastType, [], OK)]"
  using AddRecord_fragments_payload[of "Writer_resume 32755" "\<lparr>calls = [], script = []\<rparr>"
          "[1, 2, 3, 4, 5, 6, 7, 8]"]
        AddRecord_fragments_payload[of "Writer_resume 32755"
          "\<lparr>calls = [], script = [OK, NotOK ''disk full'']\<rparr>" "[1, 2, 3, 4, 5, 6, 7, 8]"]
  by (simp add: eval_writer)

text \<open>
  What \<open>AddRecord\<close> does with the status of the calls of \<open>EmitPhysicalRecord\<close>. The calls
  that it makes on the file are those of its events, in order (\<open>replay\<close>): for each
  fragment the header append, then the payload append only if the former was ok, then the
  flush only if both were, before anything of the next fragment. Every fragment but the
  last emitted returned ok, the status of the last one is the status \<open>AddRecord\<close>
  returns, and the payloads emitted are a prefix of the payload (all of it when the status
  is ok). The status of the append of a trailer is no part of it: \<open>replay\<close> takes a
  trailer's append with whatever status it returned.
\<close>
lemma AddRecord_stops_at_first_failed_fragment:
  assumes "0 \<le> block_offset w" "block_offset w \<le> kBlockSize"
  shows "\<exists>s w' f' es cs. AddRecord w f payload = Inr (s, w', f')
     \<and> trace w' = trace w @ es
     \<and> calls f' = calls f @ cs \<and> replay (type_crc w) es cs
     \<and> fragments es \<noteq> [] \<and> is_Fragment (last es)
     \<and> list_all (\<lambda>(at, t, p, s'). ok s') (butlast (fragments es))
     \<and> snd (snd (snd (last (fragments es)))) = s
     \<and> (\<exists>n. concat (map (\<lambda>(at, t, p, s'). p) (fragments es)) = take n payload)
     \<and> (ok s \<longrightarrow> concat (map (\<lambda>(at, t, p, s'). p) (fragments es)) = payload)"
proof -
  from AddRecord_loop_run[OF assms, of f payload True]
  obtain s w' f' es cs where r:
    "AddRecord w f payload = Inr (s, w', f')" "trace w' = trace w @ es"
    "fragments es \<noteq> []" "is_Fragment (last es)" "carved True payload (fragments es)"
    "list_all (\<lambda>(at, t, p, s'). ok s') (butlast (fragments es))"
    "snd (snd (snd (last (fragments es)))) = s"
    "ok s \<longrightarrow> concat (map (\<lambda>(at, t, p, s'). p) (fragments es)) = payload"
    "calls f' = calls f @ cs" "replay (type_crc w) es cs"
    unfolding AddRecord_def by blast
  from carved_prefix[OF r(5)] r show ?thesis
    by blast
qed

text \<open>
  C4. The claim: if any append or flush returns a non-ok status, the fragmentation loop
  stops immediately and that status is returned from \<open>AddRecord\<close>. The writer keeps and
  checks the status of the header append, the payload append and the flush of every
  fragment, but it drops the status of the append of the zero trailer that fills the end
  of a block. Here the writer resumes at block offset 32765, three bytes before the end of
  the block, the file fails its first call with "disk full", and the payload is the one
  byte 9: the append of the three trailer bytes fails, yet the writer goes on to append
  the header and the payload of a Full fragment and to flush, and \<open>AddRecord\<close> returns ok.
  The claim asks for the loop to stop at the failed append and for "disk full" to be
  returned.
\<close>
theorem AddRecord_ignores_failed_trailer_append:
  "AddRecord (Writer_resume 32765) \<lparr>calls = [], script = [NotOK ''disk full'']\<rparr> [9]
     = Inr (OK,
            \<lparr>block_offset = 8, type_crc = InitTypeCrc,
               trace = [Trailer 32765 [0, 0, 0], Fragment 0 kFullType [9] OK]\<rparr>,
            \<lparr>calls = [(Append [0, 0, 0], NotOK ''disk full''),
                       (Append (header InitTypeCrc kFullType [9]), OK),
                       (Append [9], OK), (Flush, OK)], script = []\<rparr>)"
  by (simp add: eval_writer)

theorem fragment_length_witness:
  "AddRecords (Writer_resume 32755) \<lparr>calls = [], script = []\<rparr> [[1, 2, 3, 4, 5, 6, 7, 8]]
       = Inr (\<lparr>block_offset = 9, type_crc = InitTypeCrc,
                    trace = [Fragment 32755 kFirstType [1, 2, 3, 4, 5, 6] OK,
                             Fragment 0 kLastType [7, 8] OK]\<rparr>,
              \<lparr>calls = [(Append (header InitTypeCrc kFirstType [1, 2, 3, 4, 5, 6]), OK),
                         (Append [1, 2, 3, 4, 5, 6], OK), (Flush, OK),
                         (Append (header InitTypeCrc kLastType [7, 8]), OK),
                         (Append [7, 8], OK), (Flush, OK)], script = []\<rparr>)
   \<and> length_field (header InitTypeCrc kFirstType [1, 2, 3, 4, 5, 6]) = 6
   \<and> length_field (header InitTypeCrc kLastType [7, 8]) = 2"
  using fragment_length_fits_field_and_block[of 32755 "\<lparr>calls = [], script = []\<rparr>" "[[1, 2, 3, 4, 5, 6, 7, 8]]"]
  by (simp add: eval_writer)

section \<open>The skip list: searching a well-formed list\<close>

lemma find_SomeD:
  "find P xs = Some b \<Longrightarrow> \<exists>m1 m2. xs = m1 @ b # m2 \<and> P b \<and> (\<forall>a\<in>set m1. \<not> P a)"
proof (induction xs)
  case Nil
  then show ?case by simp
next
  case (Cons a xs)
  show ?case
  proof (cases "P a")
    case True
    with Cons.prems have "a = b" by simp
    with True have "a # xs = [] @ b # xs \<and> P b \<and> (\<forall>a\<in>set []. \<not> P a)" by simp
    then show ?thesis by blast
  next
    case False
    with Cons obtain m1 m2 where "xs = m1 @ b # m2" "P b" "\<forall>a\<in>set m1. \<not> P a"
      by auto
    with False have "a # xs = (a # m1) @ b # m2 \<and> P b \<and> (\<forall>a\<in>set (a # m1). \<not> P a)"
      by simp
    then show ?thesis by blast
  qed
qed

lemma find_append_Some: "find P xs = Some b \<Longrightarrow> find P (xs @ ys) = Some b"
  by (induction xs) (auto split: if_splits)

lemma find_append_skip:
  "\<forall>a\<in>set m. \<not> P a \<Longrightarrow> find P (m @ ys) = find P ys"
  by (induction m) auto

lemma linked_suffix: "linked ar (pre @ post) \<Longrightarrow> linked ar post"
  by (induction pre) auto

lemma linked_nth:
  "linked ar (pre @ a # post) \<Longrightarrow> lev < ht ar a \<Longrightarrow>
   nexts (ar ! a) ! lev = find (\<lambda>b. lev < ht ar b) post"
  using linked_suffix[of ar pre "a # post"] by simp

text \<open>The keys below and not below a bound split a sorted list in two.\<close>

lemma sorted_split_below:
  assumes "total_order c" and "sorted_wrt (\<lambda>a b. c (f a) (f b) < 0) xs"
  shows "\<forall>b\<in>set (dropWhile (\<lambda>a. c (f a) k < 0) xs). \<not> c (f b) k < 0"
proof -
  let ?P = "\<lambda>a. c (f a) k < 0"
  show ?thesis
  proof (cases "dropWhile ?P xs")
    case Nil
    show ?thesis unfolding Nil by simp
  next
    case (Cons h hs)
    then have h: "\<not> ?P h"
      using hd_dropWhile[of ?P xs] by auto
    have "sorted_wrt (\<lambda>a b. c (f a) (f b) < 0) (takeWhile ?P xs @ dropWhile ?P xs)"
      using assms(2) by simp
    then have "sorted_wrt (\<lambda>a b. c (f a) (f b) < 0) (h # hs)"
      unfolding Cons sorted_wrt_append by simp
    then have "\<forall>b\<in>set hs. c (f h) (f b) < 0"
      by simp
    moreover have "c (f h) (f b) < 0 \<Longrightarrow> \<not> c (f b) k < 0" for b
      using assms(1) h unfolding total_order_def by blast
    ultimately show ?thesis
      using h Cons by auto
  qed
qed


text \<open>
  One step of a search. The search stands at the node \<open>x\<close> on \<open>level\<close>; the nodes that
  the search is to pass (\<open>A\<close>) are \<open>lo\<close>, the others \<open>hi\<close>; \<open>mid\<close> are the nodes of \<open>lo\<close>
  after \<open>x\<close>. Either the link of \<open>x\<close> leads to a node of \<open>mid\<close> to pass, or the search is
  done on this level.
\<close>

lemma search_step:
  assumes lk: "linked ar (head # lo @ hi)"
    and valid: "\<forall>a\<in>set (lo @ hi). a < length ar \<and> 1 \<le> ht ar a"
    and lo: "\<forall>a\<in>set lo. A a" and hi: "\<forall>b\<in>set hi. \<not> A b"
    and pos: "head # lo = pre @ x # mid"
    and lvl: "level < ht ar x"
  shows "(\<exists>b m1 m2. nexts (ar ! x) ! level = Some b \<and> A b \<and> b < length ar \<and> level < ht ar b
              \<and> mid = m1 @ b # m2 \<and> (\<forall>a\<in>set m1. ht ar a \<le> level))
       \<or> ((nexts (ar ! x) ! level = None
            \<or> (\<exists>b. nexts (ar ! x) ! level = Some b \<and> b < length ar \<and> \<not> A b))
           \<and> (\<forall>b\<in>set mid. ht ar b \<le> level)
           \<and> nexts (ar ! x) ! level = find (\<lambda>b. level < ht ar b) hi)"
proof -
  let ?H = "\<lambda>b. level < ht ar b"
  have "head # lo @ hi = pre @ x # (mid @ hi)"
    using pos by (metis append_Cons append_assoc)
  with lk have nx: "nexts (ar ! x) ! level = find ?H (mid @ hi)"
    using linked_nth[of ar pre x "mid @ hi" level] lvl by simp
  have midlo: "set mid \<subseteq> set lo"
  proof -
    have "set (pre @ x # mid) = set (head # lo)" using pos by simp
    moreover have "mid = drop (Suc (length pre)) (head # lo)" using pos by simp
    ultimately show ?thesis
      by (metis drop_Suc_Cons set_drop_subset)
  qed
  show ?thesis
  proof (cases "find ?H mid")
    case (Some b)
    from find_SomeD[OF Some] obtain m1 m2 where
      m: "mid = m1 @ b # m2" "?H b" "\<forall>a\<in>set m1. \<not> ?H a" by blast
    have "find ?H (mid @ hi) = Some b"
      using Some by (rule find_append_Some)
    moreover have "b \<in> set lo" using m(1) midlo by auto
    moreover have "\<forall>a\<in>set m1. ht ar a \<le> level" using m(3) by auto
    ultimately show ?thesis
      using nx m lo valid by auto
  next
    case None
    then have all: "\<forall>b\<in>set mid. ht ar b \<le> level"
      by (auto simp: find_None_iff)
    have f: "find ?H (mid @ hi) = find ?H hi"
      using all by (intro find_append_skip) auto
    have "find ?H hi = None \<or> (\<exists>b. find ?H hi = Some b \<and> b < length ar \<and> \<not> A b)"
    proof (cases "find ?H hi")
      case None
      then show ?thesis by simp
    next
      case (Some b)
      from find_SomeD[OF Some] have "b \<in> set hi" by auto
      with Some hi valid show ?thesis by auto
    qed
    with nx f all show ?thesis by auto
  qed
qed

lemma stop_last:
  assumes "head # lo = pre @ x # mid" "\<forall>b\<in>set mid. ht ar b \<le> level" "level < ht ar x"
  shows "last (filter (\<lambda>a. level < ht ar a) (head # lo)) = x"
proof -
  have "filter (\<lambda>a. level < ht ar a) mid = []"
    using assms(2) by (auto simp: filter_empty_conv)
  then show ?thesis
    unfolding assms(1) using assms(3) by simp
qed

lemma stop_zero:
  assumes "\<forall>a\<in>set (lo @ hi). a < length ar \<and> 1 \<le> ht ar a"
    and "head # lo = pre @ x # mid" "\<forall>b\<in>set mid. ht ar b \<le> 0"
  shows "mid = []" "x = last (head # lo)"
    "find (\<lambda>b. 0 < ht ar b) hi = (case hi of [] \<Rightarrow> None | b # _ \<Rightarrow> Some b)"
proof -
  have "set mid \<subseteq> set lo"
  proof -
    have "mid = drop (Suc (length pre)) (head # lo)" using assms(2) by simp
    then show ?thesis
      by (metis drop_Suc_Cons set_drop_subset)
  qed
  have "b \<in> set mid \<Longrightarrow> False" for b
  proof -
    assume b: "b \<in> set mid"
    with \<open>set mid \<subseteq> set lo\<close> assms(1) have "1 \<le> ht ar b" by auto
    moreover from b assms(3) have "ht ar b \<le> 0" by auto
    ultimately show False by simp
  qed
  then show "mid = []"
    by (cases mid) auto
  with assms(2) show "x = last (head # lo)"
    by simp
  show "find (\<lambda>b. 0 < ht ar b) hi = (case hi of [] \<Rightarrow> None | b # _ \<Rightarrow> Some b)"
    using assms(1) by (cases hi) auto
qed

lemma FindGreaterOrEqual_loop_spec:
  fixes l :: "'k SkipList" and k :: 'k
  defines "ar \<equiv> arena l" and "A \<equiv> \<lambda>a. comparator l (key (arena l ! a)) k < 0"
  assumes lk: "linked ar (head # lo @ hi)"
    and valid: "\<forall>a\<in>set (lo @ hi). a < length ar \<and> 1 \<le> ht ar a"
    and hv: "head < length ar"
    and lo: "\<forall>a\<in>set lo. A a" and hi: "\<forall>b\<in>set hi. \<not> A b"
  shows "head # lo = pre @ x # mid \<Longrightarrow> level < ht ar x \<Longrightarrow>
    \<exists>prev'. FindGreaterOrEqual_loop l k x level prev
               = Some (case hi of [] \<Rightarrow> None | b # _ \<Rightarrow> Some b, prev')
      \<and> (case prev of
            None \<Rightarrow> prev' = None
          | Some pv \<Rightarrow> \<exists>pv'. prev' = Some pv' \<and> length pv' = length pv
              \<and> (\<forall>j<length pv. pv' ! j =
                    (if j \<le> level then Some (last (filter (\<lambda>a. j < ht ar a) (head # lo)))
                     else pv ! j)))"
proof (induction "level + length mid" arbitrary: x level pre mid prev rule: less_induct)
  case less
  let ?P = "\<lambda>j. last (filter (\<lambda>a. j < ht ar a) (head # lo))"
  let ?R = "case hi of [] \<Rightarrow> None | b # _ \<Rightarrow> Some b"
  have "x \<in> set (head # lo)"
    unfolding less.prems(1) by simp
  then have xv: "x < length ar"
    using hv valid by auto
  have nx: "Next (arena l) x level = Some (nexts (ar ! x) ! level)"
    using xv less.prems(2) by (simp add: Next_def deref_def ar_def ht_def)
  from search_step[OF lk valid lo hi less.prems(1) less.prems(2)]
  consider
    (adv) b m1 m2 where "nexts (ar ! x) ! level = Some b" "A b" "b < length ar" "level < ht ar b"
      "mid = m1 @ b # m2"
  | (stop) "nexts (ar ! x) ! level = None
            \<or> (\<exists>b. nexts (ar ! x) ! level = Some b \<and> b < length ar \<and> \<not> A b)"
      "\<forall>b\<in>set mid. ht ar b \<le> level"
      "nexts (ar ! x) ! level = find (\<lambda>b. level < ht ar b) hi"
    by blast
  then show ?case
  proof cases
    case adv
    have ka: "KeyIsAfterNode l k (Some b) = Some True"
      using adv(2,3) by (simp add: KeyIsAfterNode_def deref_def ar_def A_def)
    have step: "FindGreaterOrEqual_loop l k x level prev = FindGreaterOrEqual_loop l k b level prev"
      by (subst FindGreaterOrEqual_loop.simps) (simp add: nx adv(1) ka)
    have pos: "head # lo = (pre @ x # m1) @ b # m2"
      using less.prems(1) adv(5) by simp
    have "level + length m2 < level + length mid"
      using adv(5) by simp
    from less.hyps[OF this pos adv(4), of prev] step show ?thesis
      by simp
  next
    case stop
    have ka: "KeyIsAfterNode l k (nexts (ar ! x) ! level) = Some False"
      using stop(1) by (auto simp: KeyIsAfterNode_def deref_def ar_def A_def)
    have px: "?P level = x"
      using stop_last[OF less.prems(1) stop(2) less.prems(2)] .
    let ?prev1 = "map_option (\<lambda>p. p[level := Some x]) prev"
    have eq: "FindGreaterOrEqual_loop l k x level prev
              = (if level = 0 then Some (nexts (ar ! x) ! level, ?prev1)
                 else FindGreaterOrEqual_loop l k x (level - 1) ?prev1)"
      by (subst FindGreaterOrEqual_loop.simps) (simp add: nx ka Let_def)
    show ?thesis
    proof (cases "level = 0")
      case True
      have "FindGreaterOrEqual_loop l k x level prev = Some (nexts (ar ! x) ! level, ?prev1)"
        using eq True by simp
      moreover have "nexts (ar ! x) ! level = ?R"
        using stop(3) stop_zero(3)[OF valid less.prems(1)] stop(2) True by simp
      moreover have "case prev of
            None \<Rightarrow> ?prev1 = None
          | Some pv \<Rightarrow> \<exists>pv'. ?prev1 = Some pv' \<and> length pv' = length pv
              \<and> (\<forall>j<length pv. pv' ! j = (if j \<le> level then Some (?P j) else pv ! j))"
        using px True by (auto split: option.splits)
      ultimately show ?thesis by simp
    next
      case False
      have step: "FindGreaterOrEqual_loop l k x level prev
                  = FindGreaterOrEqual_loop l k x (level - 1) ?prev1"
        using eq False by simp
      have m: "level - 1 + length mid < level + length mid"
        using False by simp
      have lv: "level - 1 < ht ar x"
        using less.prems(2) by simp
      from less.hyps[OF m less.prems(1) lv, of ?prev1]
      obtain prev' where r: "FindGreaterOrEqual_loop l k x (level - 1) ?prev1 = Some (?R, prev')"
        and p: "case ?prev1 of
            None \<Rightarrow> prev' = None
          | Some pv \<Rightarrow> \<exists>pv'. prev' = Some pv' \<and> length pv' = length pv
              \<and> (\<forall>j<length pv. pv' ! j = (if j \<le> level - 1 then Some (?P j) else pv ! j))"
        by blast
      have "case prev of
            None \<Rightarrow> prev' = None
          | Some pv \<Rightarrow> \<exists>pv'. prev' = Some pv' \<and> length pv' = length pv
              \<and> (\<forall>j<length pv. pv' ! j = (if j \<le> level then Some (?P j) else pv ! j))"
      proof (cases prev)
        case None
        with p show ?thesis by simp
      next
        case (Some pv)
        with p obtain pv' where pv': "prev' = Some pv'" "length pv' = length pv"
          "\<forall>j<length pv. pv' ! j = (if j \<le> level - 1 then Some (?P j) else pv[level := Some x] ! j)"
          by auto
        have "pv' ! j = (if j \<le> level then Some (?P j) else pv ! j)" if "j < length pv" for j
        proof (cases "j = level")
          case True
          with that pv'(3) False px show ?thesis by simp
        next
          case ne: False
          with that pv'(3) show ?thesis by auto
        qed
        with pv' Some show ?thesis by simp
      qed
      with step r show ?thesis by simp
    qed
  qed
qed


lemma FindLessThan_loop_spec:
  fixes l :: "'k SkipList" and k :: 'k
  defines "ar \<equiv> arena l" and "A \<equiv> \<lambda>a. comparator l (key (arena l ! a)) k < 0"
  assumes lk: "linked ar (head # lo @ hi)"
    and valid: "\<forall>a\<in>set (lo @ hi). a < length ar \<and> 1 \<le> ht ar a"
    and hv: "head < length ar"
    and lo: "\<forall>a\<in>set lo. A a" and hi: "\<forall>b\<in>set hi. \<not> A b"
  shows "head # lo = pre @ x # mid \<Longrightarrow> level < ht ar x \<Longrightarrow>
    FindLessThan_loop l k x level = Some (last (head # lo))"
proof (induction "level + length mid" arbitrary: x level pre mid rule: less_induct)
  case less
  have xin: "x \<in> set (head # lo)"
    unfolding less.prems(1) by simp
  then have xv: "x < length ar"
    using hv valid by auto
  have dx: "deref (arena l) x = Some (ar ! x)"
    using xv by (simp add: deref_def ar_def)
  have ax: "x = head \<or> comparator l (key (ar ! x)) k < 0"
    using xin lo by (auto simp: A_def ar_def)
  have nx: "Next (arena l) x level = Some (nexts (ar ! x) ! level)"
    using xv less.prems(2) by (simp add: Next_def deref_def ar_def ht_def)
  let ?down = "if level = 0 then Some x else FindLessThan_loop l k x (level - 1)"
  from search_step[OF lk valid lo hi less.prems(1) less.prems(2)]
  consider
    (adv) b m1 m2 where "nexts (ar ! x) ! level = Some b" "A b" "b < length ar" "level < ht ar b"
      "mid = m1 @ b # m2"
  | (stop) "nexts (ar ! x) ! level = None
            \<or> (\<exists>b. nexts (ar ! x) ! level = Some b \<and> b < length ar \<and> \<not> A b)"
      "\<forall>b\<in>set mid. ht ar b \<le> level"
    by blast
  then show ?case
  proof cases
    case adv
    have db: "deref (arena l) b = Some (ar ! b)"
      using adv(3) by (simp add: deref_def ar_def)
    have ab: "\<not> comparator l (key (ar ! b)) k \<ge> 0"
      using adv(2) by (simp add: A_def ar_def)
    have step: "FindLessThan_loop l k x level = FindLessThan_loop l k b level"
      using ax by (subst FindLessThan_loop.simps) (simp add: dx nx adv(1) db ab)
    have pos: "head # lo = (pre @ x # m1) @ b # m2"
      using less.prems(1) adv(5) by simp
    have "level + length m2 < level + length mid"
      using adv(5) by simp
    from less.hyps[OF this pos adv(4)] step show ?thesis
      by simp
  next
    case stop
    have eq: "FindLessThan_loop l k x level = ?down"
      using stop(1)
    proof
      assume "nexts (ar ! x) ! level = None"
      then show ?thesis
        using ax by (subst FindLessThan_loop.simps) (simp add: dx nx)
    next
      assume "\<exists>b. nexts (ar ! x) ! level = Some b \<and> b < length ar \<and> \<not> A b"
      then obtain b where b: "nexts (ar ! x) ! level = Some b" "b < length ar" "\<not> A b"
        by blast
      have db: "deref (arena l) b = Some (ar ! b)"
        using b(2) by (simp add: deref_def ar_def)
      have ab: "comparator l (key (ar ! b)) k \<ge> 0"
        using b(3) by (simp add: A_def ar_def)
      show ?thesis
        using ax by (subst FindLessThan_loop.simps) (simp add: dx nx b(1) db ab)
    qed
    show ?thesis
    proof (cases "level = 0")
      case True
      with stop(2) stop_zero(2)[OF valid less.prems(1)] eq show ?thesis
        by simp
    next
      case False
      have m: "level - 1 + length mid < level + length mid"
        using False by simp
      have lv: "level - 1 < ht ar x"
        using less.prems(2) by simp
      from less.hyps[OF m less.prems(1) lv] eq False show ?thesis
        by simp
    qed
  qed
qed

lemma FindLast_loop_spec:
  fixes l :: "'k SkipList"
  defines "ar \<equiv> arena l"
  assumes lk: "linked ar (head # xs)"
    and valid: "\<forall>a\<in>set xs. a < length ar \<and> 1 \<le> ht ar a"
    and hv: "head < length ar"
  shows "head # xs = pre @ x # mid \<Longrightarrow> level < ht ar x \<Longrightarrow>
    FindLast_loop l x level = Some (last (head # xs))"
proof (induction "level + length mid" arbitrary: x level pre mid rule: less_induct)
  case less
  have lk': "linked ar (head # xs @ [])" using lk by simp
  have valid': "\<forall>a\<in>set (xs @ []). a < length ar \<and> 1 \<le> ht ar a" using valid by simp
  have "x \<in> set (head # xs)"
    unfolding less.prems(1) by simp
  then have xv: "x < length ar"
    using hv valid by auto
  have nx: "Next (arena l) x level = Some (nexts (ar ! x) ! level)"
    using xv less.prems(2) by (simp add: Next_def deref_def ar_def ht_def)
  from search_step[OF lk' valid', of "\<lambda>_. True", OF _ _ less.prems(1) less.prems(2)]
  consider
    (adv) b m1 m2 where "nexts (ar ! x) ! level = Some b" "level < ht ar b" "mid = m1 @ b # m2"
  | (stop) "nexts (ar ! x) ! level = None" "\<forall>b\<in>set mid. ht ar b \<le> level"
    by auto
  then show ?case
  proof cases
    case adv
    have step: "FindLast_loop l x level = FindLast_loop l b level"
      by (subst FindLast_loop.simps) (simp add: nx adv(1))
    have pos: "head # xs = (pre @ x # m1) @ b # m2"
      using less.prems(1) adv(3) by simp
    have "level + length m2 < level + length mid"
      using adv(3) by simp
    from less.hyps[OF this pos adv(2)] step show ?thesis
      by simp
  next
    case stop
    have eq: "FindLast_loop l x level
              = (if level = 0 then Some x else FindLast_loop l x (level - 1))"
      by (subst FindLast_loop.simps) (simp add: nx stop(1))
    show ?thesis
    proof (cases "level = 0")
      case True
      with stop(2) stop_zero(2)[OF valid' less.prems(1)] eq show ?thesis
        by simp
    next
      case False
      have m: "level - 1 + length mid < level + length mid"
        using False by simp
      have lv: "level - 1 < ht ar x"
        using less.prems(2) by simp
      from less.hyps[OF m less.prems(1) lv] eq False show ?thesis
        by simp
    qed
  qed
qed

text \<open>What the invariant gives a search for the key \<open>k\<close>.\<close>

lemma inv_facts:
  assumes "skiplist_inv l xs"
  shows "linked (arena l) (head # xs)"
    and "\<forall>a\<in>set xs. a < length (arena l) \<and> 1 \<le> ht (arena l) a"
    and "head < length (arena l)"
    and "max_height l - 1 < ht (arena l) head"
    and "max_height l \<noteq> 0"
    and "sorted_wrt (\<lambda>a b. comparator l (key (arena l ! a)) (key (arena l ! b)) < 0) xs"
proof -
  from assms have a: "arena l \<noteq> []" "ht (arena l) head = kMaxHeight"
    "1 \<le> max_height l" "max_height l \<le> kMaxHeight"
    "\<forall>a \<in> set xs. 0 < a \<and> a < length (arena l)
             \<and> 1 \<le> ht (arena l) a \<and> ht (arena l) a \<le> max_height l"
    "sorted_wrt (\<lambda>a b. comparator l (key (arena l ! a)) (key (arena l ! b)) < 0) xs"
    "linked (arena l) (head # xs)"
    unfolding skiplist_inv_def by blast+
  show "linked (arena l) (head # xs)" by (rule a(7))
  show "\<forall>a\<in>set xs. a < length (arena l) \<and> 1 \<le> ht (arena l) a" using a(5) by blast
  show "head < length (arena l)" using a(1) by (simp add: head_def)
  show "max_height l - 1 < ht (arena l) head" using a(2,3,4) by (simp add: kMaxHeight_def)
  show "max_height l \<noteq> 0" using a(3) by simp
  show "sorted_wrt (\<lambda>a b. comparator l (key (arena l ! a)) (key (arena l ! b)) < 0) xs" by (rule a(6))
qed

lemma inv_search:
  fixes l :: "'k SkipList" and k :: 'k
  assumes inv: "skiplist_inv l xs" and tot: "total_order (comparator l)"
  shows "linked (arena l) (head # takeWhile (\<lambda>a. comparator l (key (arena l ! a)) k < 0) xs
                             @ dropWhile (\<lambda>a. comparator l (key (arena l ! a)) k < 0) xs)"
    and "\<forall>a\<in>set (takeWhile (\<lambda>a. comparator l (key (arena l ! a)) k < 0) xs
                  @ dropWhile (\<lambda>a. comparator l (key (arena l ! a)) k < 0) xs).
            a < length (arena l) \<and> 1 \<le> ht (arena l) a"
    and "head < length (arena l)"
    and "\<forall>a\<in>set (takeWhile (\<lambda>a. comparator l (key (arena l ! a)) k < 0) xs).
            comparator l (key (arena l ! a)) k < 0"
    and "\<forall>b\<in>set (dropWhile (\<lambda>a. comparator l (key (arena l ! a)) k < 0) xs).
            \<not> comparator l (key (arena l ! b)) k < 0"
    and "max_height l - 1 < ht (arena l) head"
    and "max_height l \<noteq> 0"
proof -
  let ?A = "\<lambda>a. comparator l (key (arena l ! a)) k < 0"
  note f = inv_facts[OF inv]
  show "linked (arena l) (head # takeWhile ?A xs @ dropWhile ?A xs)"
    "\<forall>a\<in>set (takeWhile ?A xs @ dropWhile ?A xs). a < length (arena l) \<and> 1 \<le> ht (arena l) a"
    unfolding takeWhile_dropWhile_id by (rule f(1), rule f(2))
  show "head < length (arena l)" "max_height l - 1 < ht (arena l) head" "max_height l \<noteq> 0"
    by (rule f(3), rule f(4), rule f(5))
  show "\<forall>a\<in>set (takeWhile ?A xs). ?A a"
  proof
    fix a assume "a \<in> set (takeWhile ?A xs)"
    from set_takeWhileD[OF this] show "?A a" by (rule conjunct2)
  qed
  show "\<forall>b\<in>set (dropWhile ?A xs). \<not> ?A b"
    using sorted_split_below[OF tot f(6), of k] .
qed

lemma FindGreaterOrEqual_spec:
  fixes l :: "'k SkipList" and k :: 'k
  assumes inv: "skiplist_inv l xs" and tot: "total_order (comparator l)"
  shows "\<exists>prev'. FindGreaterOrEqual l k prev
               = Some (case dropWhile (\<lambda>a. comparator l (key (arena l ! a)) k < 0) xs of
                         [] \<Rightarrow> None | b # _ \<Rightarrow> Some b, prev')
      \<and> (case prev of
            None \<Rightarrow> prev' = None
          | Some pv \<Rightarrow> \<exists>pv'. prev' = Some pv' \<and> length pv' = length pv
              \<and> (\<forall>j<length pv. pv' ! j =
                    (if j \<le> max_height l - 1
                     then Some (last (filter (\<lambda>a. j < ht (arena l) a)
                            (head # takeWhile (\<lambda>a. comparator l (key (arena l ! a)) k < 0) xs)))
                     else pv ! j)))"
proof -
  note s = inv_search(1,2)[OF inv tot, where k = k] inv_search(3)[OF inv tot]
    inv_search(4,5)[OF inv tot, where k = k] inv_search(6,7)[OF inv tot]
  let ?A = "\<lambda>a. comparator l (key (arena l ! a)) k < 0"
  have "head # takeWhile ?A xs = [] @ head # takeWhile ?A xs" by simp
  from FindGreaterOrEqual_loop_spec[OF s(1,2,3,4,5) this s(6), of prev] s(7)
  show ?thesis
    by (simp only: FindGreaterOrEqual_def if_False)
qed

lemma FindLessThan_spec:
  assumes inv: "skiplist_inv l xs" and tot: "total_order (comparator l)"
  shows "FindLessThan l k
         = Some (last (head # takeWhile (\<lambda>a. comparator l (key (arena l ! a)) k < 0) xs))"
proof -
  note s = inv_search(1,2)[OF inv tot, where k = k] inv_search(3)[OF inv tot]
    inv_search(4,5)[OF inv tot, where k = k] inv_search(6,7)[OF inv tot]
  have "head # takeWhile (\<lambda>a. comparator l (key (arena l ! a)) k < 0) xs
        = [] @ head # takeWhile (\<lambda>a. comparator l (key (arena l ! a)) k < 0) xs" by simp
  from FindLessThan_loop_spec[OF s(1,2,3,4,5) this s(6)] s(7)
  show ?thesis
    by (simp only: FindLessThan_def if_False)
qed

lemma FindLast_spec:
  assumes inv: "skiplist_inv l xs"
  shows "FindLast l = Some (last (head # xs))"
proof -
  note a = inv_facts[OF inv]
  have "head # xs = [] @ head # xs" by simp
  from FindLast_loop_spec[OF a(1,2,3) this a(4)] a(5)
  show ?thesis
    by (simp only: FindLast_def if_False)
qed

lemma Contains_spec:
  fixes l :: "'k SkipList" and k :: 'k
  assumes inv: "skiplist_inv l xs" and tot: "total_order (comparator l)"
  shows "Contains l k = Some (k \<in> (\<lambda>a. key (arena l ! a)) ` set xs)"
proof -
  let ?c = "comparator l"
  let ?K = "\<lambda>a. key (arena l ! a)"
  let ?A = "\<lambda>a. ?c (?K a) k < 0"
  let ?lo = "takeWhile ?A xs" and ?hi = "dropWhile ?A xs"
  note s = inv_search(1,2)[OF inv tot, where k = k] inv_search(3)[OF inv tot]
    inv_search(4,5)[OF inv tot, where k = k]
  have xs: "xs = ?lo @ ?hi" by simp
  have refl: "?c k k = 0" using tot unfolding total_order_def by blast
  have lo_ne: "?K a \<noteq> k" if "a \<in> set ?lo" for a
  proof
    assume "?K a = k"
    moreover from that s(4) have "?c (?K a) k < 0" by blast
    ultimately show False using refl by simp
  qed
  from FindGreaterOrEqual_spec[OF inv tot, of k None]
  have fge: "FindGreaterOrEqual l k None = Some (case ?hi of [] \<Rightarrow> None | b # _ \<Rightarrow> Some b, None)"
    by auto
  show ?thesis
  proof (cases ?hi)
    case Nil
    then have "set xs = set ?lo"
      using xs by (metis append_Nil2)
    then have "k \<notin> ?K ` set xs"
      using lo_ne by auto
    then show ?thesis
      using fge Nil by (simp add: Contains_def)
  next
    case (Cons b hs)
    have bhi: "b \<in> set ?hi" using Cons by simp
    then have "b \<in> set xs" by (rule set_dropWhileD)
    then have bv: "b < length (arena l)" using inv_facts(2)[OF inv] by blast
    have nb: "\<not> ?c (?K b) k < 0" using s(5) bhi by blast
    have c: "Contains l k = Some (?c k (?K b) = 0)"
      using fge Cons bv by (simp add: Contains_def deref_def Equal_def)
    have eq: "(?c k (?K b) = 0) = (k = ?K b)"
      using tot unfolding total_order_def by blast
    have split: "xs = ?lo @ b # hs" using xs Cons by simp
    have srt: "sorted_wrt (\<lambda>a b. ?c (?K a) (?K b) < 0) (?lo @ b # hs)"
      using inv_facts(6)[OF inv] split by simp
    have hs_ne: "?K a \<noteq> k" if "a \<in> set hs" for a
    proof
      assume "?K a = k"
      moreover from srt that have "?c (?K b) (?K a) < 0"
        by (auto simp: sorted_wrt_append)
      ultimately show False using nb by simp
    qed
    have "(k \<in> ?K ` set xs) = (k = ?K b)"
    proof
      assume "k \<in> ?K ` set xs"
      then obtain a where a: "a \<in> set xs" "k = ?K a" by blast
      from a(1) have "a \<in> set ?lo \<or> a = b \<or> a \<in> set hs"
        by (subst (asm) split) auto
      with a(2) lo_ne hs_ne show "k = ?K b" by blast
    next
      assume "k = ?K b"
      moreover have "b \<in> set xs" by (subst split) simp
      ultimately show "k \<in> ?K ` set xs" by blast
    qed
    with c eq show ?thesis by simp
  qed
qed

lemma Seek_spec:
  fixes l :: "'k SkipList" and k :: 'k
  assumes inv: "skiplist_inv l xs" and tot: "total_order (comparator l)"
  shows "Seek l k = Some \<lparr>node = (case dropWhile (\<lambda>a. comparator l (key (arena l ! a)) k < 0) xs of
                                    [] \<Rightarrow> None | b # _ \<Rightarrow> Some b)\<rparr>"
proof -
  from FindGreaterOrEqual_spec[OF inv tot, of k None]
  have "FindGreaterOrEqual l k None
        = Some (case dropWhile (\<lambda>a. comparator l (key (arena l ! a)) k < 0) xs of
                  [] \<Rightarrow> None | b # _ \<Rightarrow> Some b, None)"
    by auto
  then show ?thesis
    by (simp add: Seek_def)
qed

lemma visit_spec:
  fixes l :: "'k SkipList"
  assumes lk: "linked (arena l) (pre @ a # post)"
    and valid: "\<forall>b\<in>set (a # post). b < length (arena l) \<and> 1 \<le> ht (arena l) b"
  shows "visit l \<lparr>node = Some a\<rparr> seen = Some (seen @ map (\<lambda>a. key (arena l ! a)) (a # post))"
  using assms
proof (induction post arbitrary: a pre seen)
  case Nil
  have k: "Iterator_key l \<lparr>node = Some a\<rparr> = Some (key (arena l ! a))"
    using Nil.prems(2) by (simp add: Iterator_key_def deref_def)
  have "nexts (arena l ! a) ! 0 = find (\<lambda>b. 0 < ht (arena l) b) []"
    using linked_nth[OF Nil.prems(1), of 0] Nil.prems(2) by simp
  then have n: "Iterator_Next l \<lparr>node = Some a\<rparr> = Some \<lparr>node = None\<rparr>"
    using Nil.prems(2) by (auto simp: Iterator_Next_def Next_def deref_def ht_def)
  have "visit l \<lparr>node = Some a\<rparr> seen = visit l \<lparr>node = None\<rparr> (seen @ [key (arena l ! a)])"
    by (subst visit.simps) (simp add: Valid_def k n)
  also have "\<dots> = Some (seen @ [key (arena l ! a)])"
    by (subst visit.simps) (simp add: Valid_def)
  finally show ?case by simp
next
  case (Cons b post)
  have k: "Iterator_key l \<lparr>node = Some a\<rparr> = Some (key (arena l ! a))"
    using Cons.prems(2) by (simp add: Iterator_key_def deref_def)
  have "nexts (arena l ! a) ! 0 = find (\<lambda>b. 0 < ht (arena l) b) (b # post)"
    using linked_nth[OF Cons.prems(1), of 0] Cons.prems(2) by simp
  then have "nexts (arena l ! a) ! 0 = Some b"
    using Cons.prems(2) by simp
  then have n: "Iterator_Next l \<lparr>node = Some a\<rparr> = Some \<lparr>node = Some b\<rparr>"
    using Cons.prems(2) by (auto simp: Iterator_Next_def Next_def deref_def ht_def)
  have step: "visit l \<lparr>node = Some a\<rparr> seen = visit l \<lparr>node = Some b\<rparr> (seen @ [key (arena l ! a)])"
    by (subst visit.simps) (simp add: Valid_def k n)
  have lk': "linked (arena l) ((pre @ [a]) @ b # post)"
    using Cons.prems(1) by simp
  have v': "\<forall>c\<in>set (b # post). c < length (arena l) \<and> 1 \<le> ht (arena l) c"
    using Cons.prems(2) by simp
  from Cons.IH[OF lk' v', of "seen @ [key (arena l ! a)]"] step show ?case
    by simp
qed

lemma scan_spec:
  fixes l :: "'k SkipList"
  assumes inv: "skiplist_inv l xs"
  shows "scan l = Some (map (\<lambda>a. key (arena l ! a)) xs)"
proof -
  note f = inv_facts[OF inv]
  have h0: "0 < ht (arena l) head"
    using f(4) by simp
  have "nexts (arena l ! head) ! 0 = find (\<lambda>b. 0 < ht (arena l) b) xs"
    using linked_nth[of "arena l" "[]" head xs 0] f(1) h0 by simp
  then have first: "SeekToFirst l = Some \<lparr>node = find (\<lambda>b. 0 < ht (arena l) b) xs\<rparr>"
    using f(3) h0 by (simp add: SeekToFirst_def Next_def deref_def ht_def)
  show ?thesis
  proof (cases xs)
    case Nil
    have "visit l \<lparr>node = None\<rparr> [] = Some []"
      by (subst visit.simps) (simp add: Valid_def)
    with first Nil show ?thesis
      by (simp add: scan_def)
  next
    case (Cons a post)
    have fa: "find (\<lambda>b. 0 < ht (arena l) b) xs = Some a"
      using f(2) Cons by simp
    have lk: "linked (arena l) ([head] @ a # post)"
      using f(1) Cons by simp
    have v: "\<forall>b\<in>set (a # post). b < length (arena l) \<and> 1 \<le> ht (arena l) b"
      using f(2) Cons by simp
    from visit_spec[OF lk v, of "[]"] first fa Cons show ?thesis
      by (simp add: scan_def)
  qed
qed

lemma RandomHeight_loop_bounds:
  "h \<le> kMaxHeight \<Longrightarrow> RandomHeight_loop h r = (h', r') \<Longrightarrow> h \<le> h' \<and> h' \<le> kMaxHeight"
proof (induction h r rule: RandomHeight_loop.induct)
  case (1 height r)
  show ?case
  proof (cases "height < kMaxHeight")
    case False
    with "1.prems" show ?thesis
      by (simp add: RandomHeight_loop.simps)
  next
    case True
    obtain b r1 where o: "OneIn r kBranching = (b, r1)"
      by (cases "OneIn r kBranching")
    show ?thesis
    proof (cases b)
      case False
      with True o "1.prems" show ?thesis
        by (simp add: RandomHeight_loop.simps)
    next
      case b: True
      from "1.prems"(2) True o b have "RandomHeight_loop (height + 1) r1 = (h', r')"
        by (simp add: RandomHeight_loop.simps)
      moreover have "height + 1 \<le> kMaxHeight" using True by simp
      ultimately have "height + 1 \<le> h' \<and> h' \<le> kMaxHeight"
        using "1.IH"[OF True o[symmetric] refl] b by blast
      then show ?thesis by simp
    qed
  qed
qed

lemma RandomHeight_bounds:
  "RandomHeight r = (h, r') \<Longrightarrow> 1 \<le> h \<and> h \<le> kMaxHeight"
  using RandomHeight_loop_bounds[of 1 r h r'] by (simp add: RandomHeight_def kMaxHeight_def)

lemma fold_update_nth:
  "j < length pv \<Longrightarrow>
   fold (\<lambda>i p. p[i := v]) levels pv ! j = (if j \<in> set levels then v else pv ! j)"
proof (induction levels arbitrary: pv)
  case Nil
  then show ?case by simp
next
  case (Cons i levels)
  have "j < length (pv[i := v])" using Cons.prems by simp
  from Cons.IH[OF this] Cons.prems show ?case
    by (auto simp: nth_list_update)
qed

lemma fold_update_length: "length (fold (\<lambda>i p. p[i := v]) levels pv) = length pv"
  by (induction levels arbitrary: pv) auto

lemma last_filter_split:
  "filter P L \<noteq> [] \<Longrightarrow>
   \<exists>pre mid. L = pre @ last (filter P L) # mid \<and> P (last (filter P L)) \<and> (\<forall>b\<in>set mid. \<not> P b)"
proof (induction L rule: rev_induct)
  case Nil
  then show ?case by simp
next
  case (snoc a L)
  show ?case
  proof (cases "P a")
    case True
    then have "L @ [a] = L @ last (filter P (L @ [a])) # [] \<and> P (last (filter P (L @ [a])))
               \<and> (\<forall>b\<in>set []. \<not> P b)"
      by simp
    then show ?thesis by blast
  next
    case False
    with snoc.prems have ne: "filter P L \<noteq> []" by simp
    from snoc.IH[OF ne] obtain pre mid where
      "L = pre @ last (filter P L) # mid" "P (last (filter P L))" "\<forall>b\<in>set mid. \<not> P b"
      by blast
    with False have "L @ [a] = pre @ last (filter P (L @ [a])) # (mid @ [a])
               \<and> P (last (filter P (L @ [a]))) \<and> (\<forall>b\<in>set (mid @ [a]). \<not> P b)"
      by simp
    then show ?thesis by blast
  qed
qed

lemma linked_cong:
  assumes "\<forall>a\<in>set L. ht ar' a = ht ar a \<and> (\<forall>lev<ht ar a. nexts (ar' ! a) ! lev = nexts (ar ! a) ! lev)"
  shows "linked ar' L = linked ar L"
  using assms
proof (induction L)
  case Nil
  then show ?case by simp
next
  case (Cons a L)
  have "find (\<lambda>b. lev < ht ar' b) L = find (\<lambda>b. lev < ht ar b) L" for lev
    using Cons.prems by (intro find_cong) auto
  with Cons show ?case
    by auto
qed

lemma link_step:
  assumes p: "pv ! i = Some p" "p < length ar" "p \<noteq> x" "i < ht ar p"
    and x: "x < length ar" "i < ht ar x"
  shows "\<exists>ar2. link_levels x pv (i # levels) ar = link_levels x pv levels ar2
     \<and> length ar2 = length ar
     \<and> (\<forall>a<length ar. key (ar2 ! a) = key (ar ! a) \<and> ht ar2 a = ht ar a
          \<and> (\<forall>lev<ht ar a. nexts (ar2 ! a) ! lev =
               (if lev = i
                then (if a = x then nexts (ar ! p) ! i
                      else if a = p then Some x
                      else nexts (ar ! a) ! lev)
                else nexts (ar ! a) ! lev)))"
proof -
  define n where "n = nexts (ar ! p) ! i"
  define ar1 where "ar1 = ar[x := (ar ! x)\<lparr>nexts := (nexts (ar ! x))[i := n]\<rparr>]"
  define ar2 where "ar2 = ar1[p := (ar1 ! p)\<lparr>nexts := (nexts (ar1 ! p))[i := Some x]\<rparr>]"
  have 1: "Next ar p i = Some n"
    using p by (simp add: Next_def deref_def n_def ht_def)
  have 2: "SetNext ar x i n = Some ar1"
    using x by (simp add: SetNext_def deref_def ar1_def ht_def)
  have p1: "ar1 ! p = ar ! p" "length ar1 = length ar"
    using p by (simp_all add: ar1_def)
  have 3: "SetNext ar1 p i (Some x) = Some ar2"
    using p p1 by (simp add: SetNext_def deref_def ar2_def ht_def)
  have step: "link_levels x pv (i # levels) ar = link_levels x pv levels ar2"
    by (simp add: p(1) 1 2 3)
  have len: "length ar2 = length ar"
    by (simp add: ar2_def ar1_def)
  have pt: "key (ar2 ! a) = key (ar ! a) \<and> ht ar2 a = ht ar a
          \<and> (\<forall>lev<ht ar a. nexts (ar2 ! a) ! lev =
               (if lev = i
                then (if a = x then nexts (ar ! p) ! i
                      else if a = p then Some x
                      else nexts (ar ! a) ! lev)
                else nexts (ar ! a) ! lev))" if "a < length ar" for a
  proof -
    consider "a = x" | "a = p" | "a \<noteq> x" "a \<noteq> p" by blast
    then show ?thesis
    proof cases
      case 1
      then have "ar2 ! a = (ar ! x)\<lparr>nexts := (nexts (ar ! x))[i := n]\<rparr>"
        using p(3) x(1) by (simp add: ar2_def ar1_def)
      then show ?thesis
        using 1 by (auto simp: ht_def n_def nth_list_update)
    next
      case 2
      then have "ar2 ! a = (ar ! p)\<lparr>nexts := (nexts (ar ! p))[i := Some x]\<rparr>"
        using p(2,3) by (simp add: ar2_def ar1_def)
      then show ?thesis
        using 2 p(3) by (auto simp: ht_def nth_list_update)
    next
      case 3
      then have "ar2 ! a = ar ! a"
        by (simp add: ar2_def ar1_def)
      then show ?thesis
        using 3 by (auto simp: ht_def)
    qed
  qed
  from step len pt show ?thesis
    by blast
qed

lemma link_levels_spec:
  assumes "distinct levels"
    and "\<forall>i\<in>set levels. \<exists>p. pv ! i = Some p \<and> p < length ar \<and> p \<noteq> x \<and> i < ht ar p"
    and "x < length ar" and "\<forall>i\<in>set levels. i < ht ar x"
  shows "\<exists>ar'. link_levels x pv levels ar = Some ar' \<and> length ar' = length ar
     \<and> (\<forall>a<length ar. key (ar' ! a) = key (ar ! a) \<and> ht ar' a = ht ar a
          \<and> (\<forall>lev<ht ar a. nexts (ar' ! a) ! lev =
               (if lev \<in> set levels
                then (if a = x then nexts (ar ! the (pv ! lev)) ! lev
                      else if pv ! lev = Some a then Some x
                      else nexts (ar ! a) ! lev)
                else nexts (ar ! a) ! lev)))"
  using assms
proof (induction levels arbitrary: ar)
  case Nil
  then show ?case by simp
next
  case (Cons i levels)
  from Cons.prems(2) obtain p where p: "pv ! i = Some p" "p < length ar" "p \<noteq> x" "i < ht ar p"
    by auto
  have xi: "i < ht ar x" using Cons.prems(4) by simp
  from link_step[OF p Cons.prems(3) xi, of levels]
  obtain ar2 where s: "link_levels x pv (i # levels) ar = link_levels x pv levels ar2"
    "length ar2 = length ar"
    and pt2: "\<And>a. a < length ar \<Longrightarrow> key (ar2 ! a) = key (ar ! a) \<and> ht ar2 a = ht ar a
          \<and> (\<forall>lev<ht ar a. nexts (ar2 ! a) ! lev =
               (if lev = i
                then (if a = x then nexts (ar ! p) ! i
                      else if a = p then Some x
                      else nexts (ar ! a) ! lev)
                else nexts (ar ! a) ! lev))"
    by blast
  have d: "distinct levels" "i \<notin> set levels" using Cons.prems(1) by simp_all
  have a2: "\<forall>j\<in>set levels. \<exists>q. pv ! j = Some q \<and> q < length ar2 \<and> q \<noteq> x \<and> j < ht ar2 q"
  proof
    fix j assume j: "j \<in> set levels"
    with Cons.prems(2) obtain q where q: "pv ! j = Some q" "q < length ar" "q \<noteq> x" "j < ht ar q"
      by auto
    with pt2[OF q(2)] s(2) show "\<exists>q. pv ! j = Some q \<and> q < length ar2 \<and> q \<noteq> x \<and> j < ht ar2 q"
      by auto
  qed
  have a3: "x < length ar2" using Cons.prems(3) s(2) by simp
  have a4: "\<forall>j\<in>set levels. j < ht ar2 x"
    using Cons.prems(4) pt2[OF Cons.prems(3)] by simp
  from Cons.IH[OF d(1) a2 a3 a4]
  obtain ar' where r: "link_levels x pv levels ar2 = Some ar'" "length ar' = length ar2"
    and pt': "\<And>a. a < length ar2 \<Longrightarrow> key (ar' ! a) = key (ar2 ! a) \<and> ht ar' a = ht ar2 a
          \<and> (\<forall>lev<ht ar2 a. nexts (ar' ! a) ! lev =
               (if lev \<in> set levels
                then (if a = x then nexts (ar2 ! the (pv ! lev)) ! lev
                      else if pv ! lev = Some a then Some x
                      else nexts (ar2 ! a) ! lev)
                else nexts (ar2 ! a) ! lev))"
    by blast
  have "key (ar' ! a) = key (ar ! a) \<and> ht ar' a = ht ar a
          \<and> (\<forall>lev<ht ar a. nexts (ar' ! a) ! lev =
               (if lev \<in> set (i # levels)
                then (if a = x then nexts (ar ! the (pv ! lev)) ! lev
                      else if pv ! lev = Some a then Some x
                      else nexts (ar ! a) ! lev)
                else nexts (ar ! a) ! lev))" if a: "a < length ar" for a
  proof (intro conjI allI impI)
    from pt2[OF a] pt'[of a] a s(2) show "key (ar' ! a) = key (ar ! a)" "ht ar' a = ht ar a"
      by simp_all
  next
    fix lev assume lev: "lev < ht ar a"
    have h2: "ht ar2 a = ht ar a" using pt2[OF a] by simp
    have n': "nexts (ar' ! a) ! lev =
               (if lev \<in> set levels
                then (if a = x then nexts (ar2 ! the (pv ! lev)) ! lev
                      else if pv ! lev = Some a then Some x
                      else nexts (ar2 ! a) ! lev)
                else nexts (ar2 ! a) ! lev)"
      using pt'[of a] a s(2) lev h2 by simp
    have n2: "nexts (ar2 ! a) ! lev =
               (if lev = i
                then (if a = x then nexts (ar ! p) ! i
                      else if a = p then Some x
                      else nexts (ar ! a) ! lev)
                else nexts (ar ! a) ! lev)"
      using pt2[OF a] lev by simp
    show "nexts (ar' ! a) ! lev =
               (if lev \<in> set (i # levels)
                then (if a = x then nexts (ar ! the (pv ! lev)) ! lev
                      else if pv ! lev = Some a then Some x
                      else nexts (ar ! a) ! lev)
                else nexts (ar ! a) ! lev)"
    proof (cases "lev \<in> set levels")
      case False
      with n' n2 p(1) show ?thesis by auto
    next
      case True
      then have ne: "lev \<noteq> i" using d(2) by auto
      from True Cons.prems(2) obtain q where q: "pv ! lev = Some q" "q < length ar" "lev < ht ar q"
        by auto
      have "nexts (ar2 ! q) ! lev = nexts (ar ! q) ! lev"
        using pt2[OF q(2)] q(3) ne by simp
      with n' n2 True ne q(1) show ?thesis by simp
    qed
  qed
  with s r show ?case
    by simp
qed

lemma find_skip_mid: "\<not> P x \<Longrightarrow> find P (s @ x # t) = find P (s @ t)"
  by (induction s) auto

lemma find_filter_nonempty: "filter P s \<noteq> [] \<Longrightarrow> \<exists>b. find P s = Some b"
  by (induction s) (auto split: if_splits)

text \<open>
  Linking a new node \<open>x\<close> of height \<open>h\<close> in between \<open>lo\<close> and \<open>hi\<close>: at each level below
  \<open>h\<close> the new node takes the link of the last node of that level before it, and that
  node is pointed to the new node; nothing else changes.
\<close>

lemma linked_insert:
  fixes ar0 ar' :: "'k Node list" and lo :: "nat list"
  defines "P \<equiv> \<lambda>lev. last (filter (\<lambda>a. lev < ht ar0 a) (head # lo))"
  assumes lk0: "linked ar0 (head # lo @ hi)"
    and dist: "distinct (head # lo @ hi)"
    and old: "\<forall>a\<in>set (head # lo @ hi). a \<noteq> x \<and> ht ar' a = ht ar0 a"
    and htx: "ht ar' x = h" and hh: "h \<le> ht ar0 head"
    and pt: "\<forall>a\<in>set (head # lo @ x # hi). \<forall>lev<ht ar' a. nexts (ar' ! a) ! lev =
               (if lev < h
                then (if a = x then nexts (ar0 ! P lev) ! lev
                      else if P lev = a then Some x
                      else nexts (ar0 ! a) ! lev)
                else nexts (ar0 ! a) ! lev)"
  shows "linked ar' (head # lo @ x # hi)"
proof -
  let ?H0 = "\<lambda>lev b. lev < ht ar0 b" and ?H' = "\<lambda>lev b. lev < ht ar' b"
  have fc: "find (?H' lev) L = find (?H0 lev) L" if "set L \<subseteq> set (head # lo @ hi)" for lev L
    using that old by (intro find_cong) auto
  have Pin: "P lev \<in> set (head # lo) \<and> ?H0 lev (P lev)
             \<and> nexts (ar0 ! P lev) ! lev = find (?H0 lev) hi" if "lev < h" for lev
  proof -
    have ne: "filter (?H0 lev) (head # lo) \<noteq> []"
      using that hh by simp
    from last_filter_split[OF ne] obtain pre mid where
      s: "head # lo = pre @ P lev # mid" "?H0 lev (P lev)" "\<forall>b\<in>set mid. \<not> ?H0 lev b"
      unfolding P_def by blast
    have "head # lo @ hi = pre @ P lev # (mid @ hi)"
      using s(1) by (metis append_Cons append_assoc)
    with lk0 have "nexts (ar0 ! P lev) ! lev = find (?H0 lev) (mid @ hi)"
      using linked_nth[of ar0 pre "P lev" "mid @ hi" lev] s(2) by simp
    also have "\<dots> = find (?H0 lev) hi"
      using s(3) by (rule find_append_skip)
    finally show ?thesis
      using s(1,2) by (metis in_set_conv_decomp)
  qed
  \<comment> \<open>the nodes after the new one are as they were\<close>
  have hi: "linked ar' hi"
  proof -
    have "\<forall>a\<in>set hi. ht ar' a = ht ar0 a \<and> (\<forall>lev<ht ar0 a. nexts (ar' ! a) ! lev = nexts (ar0 ! a) ! lev)"
    proof (intro ballI conjI allI impI)
      fix a assume a: "a \<in> set hi"
      then show h: "ht ar' a = ht ar0 a" using old by simp
      fix lev assume lev: "lev < ht ar0 a"
      have ax: "a \<noteq> x" using a old by simp
      have "P lev \<noteq> a" if "lev < h"
        using Pin[OF that] a dist by auto
      with pt a lev h ax show "nexts (ar' ! a) ! lev = nexts (ar0 ! a) ! lev"
        by simp
    qed
    from linked_cong[OF this] linked_suffix[of ar0 "head # lo" hi] lk0 show ?thesis
      by simp
  qed
  \<comment> \<open>the new node\<close>
  have xhi: "linked ar' (x # hi)"
  proof -
    have "nexts (ar' ! x) ! lev = find (?H' lev) hi" if "lev < ht ar' x" for lev
    proof -
      have l: "lev < h" using that htx by simp
      with pt that have "nexts (ar' ! x) ! lev = nexts (ar0 ! P lev) ! lev"
        by simp
      also have "\<dots> = find (?H0 lev) hi"
        using Pin[OF l] by simp
      also have "\<dots> = find (?H' lev) hi"
        by (rule fc[symmetric]) auto
      finally show ?thesis .
    qed
    with hi show ?thesis by simp
  qed
  \<comment> \<open>the nodes before the new one, from the last to the head\<close>
  have "head # lo = pre @ s \<Longrightarrow> linked ar' (s @ x # hi)" for pre s
  proof (induction s arbitrary: pre)
    case Nil
    with xhi show ?case by simp
  next
    case (Cons a s)
    have "head # lo = (pre @ [a]) @ s" using Cons.prems by simp
    from Cons.IH[OF this] have rest: "linked ar' (s @ x # hi)" .
    have ain: "a \<in> set (head # lo)" "set s \<subseteq> set (head # lo)"
      unfolding Cons.prems by auto
    have ah: "ht ar' a = ht ar0 a" "a \<noteq> x"
      using ain(1) old by auto
    have anots: "a \<notin> set s"
      using dist unfolding Cons.prems[symmetric, unfolded append_Cons] 
      by (metis Cons.prems append_Cons dist distinct.simps(2) distinct_append)
    have "nexts (ar' ! a) ! lev = find (?H' lev) (s @ x # hi)" if lev: "lev < ht ar' a" for lev
    proof -
      have "head # lo @ hi = pre @ a # (s @ hi)"
        using Cons.prems by (metis append_Cons append_assoc)
      with lk0 have o: "nexts (ar0 ! a) ! lev = find (?H0 lev) (s @ hi)"
        using linked_nth[of ar0 pre a "s @ hi" lev] lev ah(1) by simp
      have shi: "find (?H' lev) (s @ hi) = find (?H0 lev) (s @ hi)"
        using ain(2) by (intro fc) auto
      have new: "nexts (ar' ! a) ! lev =
               (if lev < h then (if P lev = a then Some x else nexts (ar0 ! a) ! lev)
                else nexts (ar0 ! a) ! lev)"
        using pt ain(1) lev ah(2) by auto
      show ?thesis
      proof (cases "lev < h")
        case False
        then have "\<not> ?H' lev x" using htx by simp
        from find_skip_mid[of "?H' lev", OF this] new False o shi show ?thesis
          by simp
      next
        case True
        have fl: "filter (?H0 lev) (pre @ a # s) = filter (?H0 lev) pre @ a # filter (?H0 lev) s"
          using lev ah(1) by simp
        show ?thesis
        proof (cases "filter (?H0 lev) s = []")
          case e: True
          then have "P lev = a"
            unfolding P_def Cons.prems fl by simp
          moreover have "\<forall>b\<in>set s. \<not> ?H' lev b"
          proof
            fix b assume b: "b \<in> set s"
            with e have "\<not> ?H0 lev b" by (auto simp: filter_empty_conv)
            moreover have "ht ar' b = ht ar0 b" using b ain(2) old by auto
            ultimately show "\<not> ?H' lev b" by simp
          qed
          then have "find (?H' lev) (s @ x # hi) = find (?H' lev) (x # hi)"
            by (rule find_append_skip)
          ultimately show ?thesis
            using new True htx by simp
        next
          case ne: False
          then have "P lev = last (filter (?H0 lev) s)"
            unfolding P_def Cons.prems fl by simp
          moreover have "last (filter (?H0 lev) s) \<in> set s"
            using ne by (metis filter_is_subset last_in_set subsetD)
          ultimately have "P lev \<noteq> a" using anots by auto
          from find_filter_nonempty[OF ne] obtain b where b: "find (?H0 lev) s = Some b"
            by blast
          have "find (?H' lev) s = Some b"
            using b fc[of s lev] ain(2) by auto
          then have "find (?H' lev) (s @ x # hi) = Some b"
            by (rule find_append_Some)
          moreover have "find (?H0 lev) (s @ hi) = Some b"
            using b by (rule find_append_Some)
          ultimately show ?thesis
            using new True \<open>P lev \<noteq> a\<close> o by simp
        qed
      qed
    qed
    with rest show ?case by simp
  qed
  from this[of "[]" "head # lo"] show ?thesis by simp
qed

lemma total_order_trichotomy:
  "total_order c \<Longrightarrow> \<not> c a b < 0 \<Longrightarrow> a \<noteq> b \<Longrightarrow> c b a < 0"
  unfolding total_order_def by (metis linorder_neqE_linordered_idom)

lemma Insert_spec:
  fixes l :: "'k SkipList" and k :: 'k
  assumes inv: "skiplist_inv l xs" and tot: "total_order (comparator l)"
    and fresh: "k \<notin> (\<lambda>a. key (arena l ! a)) ` set xs"
  shows "\<exists>l' h r'. Insert l k = Some l' \<and> RandomHeight (rnd l) = (h, r')
      \<and> comparator l' = comparator l \<and> rnd l' = r'
      \<and> max_height l' = max (max_height l) h
      \<and> length (arena l') = Suc (length (arena l))
      \<and> skiplist_inv l' (takeWhile (\<lambda>a. comparator l (key (arena l ! a)) k < 0) xs
                          @ length (arena l) # dropWhile (\<lambda>a. comparator l (key (arena l ! a)) k < 0) xs)
      \<and> (\<forall>a<length (arena l). key (arena l' ! a) = key (arena l ! a))
      \<and> key (arena l' ! length (arena l)) = k
      \<and> ht (arena l') (length (arena l)) = h
      \<and> (\<forall>lev. max_height l \<le> lev \<and> lev < h \<longrightarrow>
            nexts (arena l' ! head) ! lev = Some (length (arena l)))"
proof -
  define ar0 where "ar0 = arena l"
  define c where "c = comparator l"
  define K where "K = (\<lambda>a. key (ar0 ! a))"
  define A where "A = (\<lambda>a. c (K a) k < 0)"
  define lo where "lo = takeWhile A xs"
  define hi where "hi = dropWhile A xs"
  define x where "x = length ar0"
  define mh where "mh = max_height l"
  define P where "P = (\<lambda>lev. last (filter (\<lambda>a. lev < ht ar0 a) (head # lo)))"
  have Adef: "A = (\<lambda>a. comparator l (key (arena l ! a)) k < 0)"
    by (simp add: A_def K_def c_def ar0_def)
  have xs: "xs = lo @ hi" by (simp add: lo_def hi_def)
  obtain h r' where rh: "RandomHeight (rnd l) = (h, r')"
    by (cases "RandomHeight (rnd l)")
  from RandomHeight_bounds[OF rh] have hb: "1 \<le> h" "h \<le> kMaxHeight" by simp_all
  from inv have i: "ar0 \<noteq> []" "ht ar0 head = kMaxHeight" "1 \<le> mh" "mh \<le> kMaxHeight"
    "distinct xs"
    "\<forall>a\<in>set xs. 0 < a \<and> a < length ar0 \<and> 1 \<le> ht ar0 a \<and> ht ar0 a \<le> mh"
    "sorted_wrt (\<lambda>a b. c (K a) (K b) < 0) xs"
    "linked ar0 (head # xs)"
    unfolding skiplist_inv_def ar0_def mh_def c_def K_def by blast+
  have loA: "\<forall>a\<in>set lo. A a" and hiA: "\<forall>b\<in>set hi. \<not> A b"
    using inv_search(4,5)[OF inv tot, where k = k] unfolding lo_def hi_def Adef by blast+
  have hx: "head < x" using i(1) by (simp add: x_def head_def)
  have hd_notin: "head \<notin> set xs" using i(6) by (auto simp: head_def)
  have dist: "distinct (head # lo @ hi)"
    using i(5) hd_notin xs by simp
  have oldlt: "\<forall>a\<in>set (head # lo @ hi). a < x"
    using i(6) hx xs by (auto simp: x_def)
  \<comment> \<open>the node before the new one at each level\<close>
  have Pin: "P j \<in> set (head # lo) \<and> j < ht ar0 (P j)" if "j < kMaxHeight" for j
  proof -
    have "filter (\<lambda>a. j < ht ar0 a) (head # lo) \<noteq> []"
      using that i(2) by simp
    from last_in_set[OF this] have "P j \<in> set (filter (\<lambda>a. j < ht ar0 a) (head # lo))"
      unfolding P_def .
    then show ?thesis
      unfolding set_filter by blast
  qed
  have Phead: "P j = head" if "mh \<le> j" "j < kMaxHeight" for j
  proof -
    have "\<not> j < ht ar0 a" if "a \<in> set lo" for a
    proof -
      from that xs have "a \<in> set xs" by simp
      with i(6) have "ht ar0 a \<le> mh" by blast
      with \<open>mh \<le> j\<close> show ?thesis by simp
    qed
    then have "filter (\<lambda>a. j < ht ar0 a) lo = []"
      by (simp add: filter_empty_conv)
    then show ?thesis
      unfolding P_def using that(2) i(2) by simp
  qed
  \<comment> \<open>the search\<close>
  let ?R = "case hi of [] \<Rightarrow> None | b # _ \<Rightarrow> Some b"
  from FindGreaterOrEqual_spec[OF inv tot, of k "Some (replicate kMaxHeight None)"]
  obtain pv1 where fge: "FindGreaterOrEqual l k (Some (replicate kMaxHeight None)) = Some (?R, Some pv1)"
    and pv1: "length pv1 = kMaxHeight"
      "\<forall>j<kMaxHeight. pv1 ! j = (if j \<le> mh - 1 then Some (P j) else None)"
    unfolding hi_def lo_def Adef P_def ar0_def mh_def by auto
  have dup: "(case ?R of None \<Rightarrow> Some True
              | Some a \<Rightarrow> map_option (\<lambda>n. \<not> Equal l k (key n)) (deref (arena l) a)) = Some True"
  proof (cases hi)
    case Nil
    then show ?thesis by simp
  next
    case (Cons b hs)
    then have b: "b \<in> set xs" using xs by simp
    then have "b < length ar0" using i(6) by blast
    moreover have "K b \<noteq> k" using fresh b by (auto simp: K_def ar0_def)
    then have "c k (K b) \<noteq> 0" using tot unfolding total_order_def c_def by metis
    ultimately show ?thesis
      using Cons by (simp add: deref_def Equal_def ar0_def c_def K_def)
  qed
  \<comment> \<open>the array of predecessors, filled up to the height of the new node\<close>
  define pv where "pv = (if h > mh then fold (\<lambda>i p. p[i := Some head]) [mh ..< h] pv1 else pv1)"
  have pvP: "pv ! j = Some (P j)" if "j < h" for j
  proof -
    have j: "j < kMaxHeight" "j < length pv1" using that hb(2) pv1(1) by simp_all
    show ?thesis
    proof (cases "j < mh")
      case True
      then have "pv ! j = pv1 ! j"
        using j(2) by (simp add: pv_def fold_update_nth)
      with pv1(2) j(1) True show ?thesis by simp
    next
      case False
      then have "pv ! j = Some head"
        using that j(2) by (simp add: pv_def fold_update_nth)
      with Phead[of j] False j(1) show ?thesis by simp
    qed
  qed
  \<comment> \<open>the new node and its links\<close>
  define ar where "ar = ar0 @ [\<lparr>key = k, nexts = replicate h None\<rparr>]"
  have nn: "NewNode (arena l) k h = (x, ar)"
    by (simp add: NewNode_def ar_def x_def ar0_def)
  have ar_old: "ar ! a = ar0 ! a" if "a < x" for a
    using that by (simp add: ar_def x_def nth_append)
  have ar_x: "ar ! x = \<lparr>key = k, nexts = replicate h None\<rparr>" "length ar = Suc x"
    by (simp_all add: ar_def x_def)
  have ht_old: "ht ar a = ht ar0 a" if "a < x" for a
    using ar_old[OF that] by (simp add: ht_def)
  have ht_x: "ht ar x = h"
    using ar_x by (simp add: ht_def)
  have l1: "distinct [0 ..< h]" by simp
  have l2: "\<forall>i\<in>set [0 ..< h]. \<exists>p. pv ! i = Some p \<and> p < length ar \<and> p \<noteq> x \<and> i < ht ar p"
  proof
    fix j assume "j \<in> set [0 ..< h]"
    then have j: "j < h" "j < kMaxHeight" using hb(2) by simp_all
    from Pin[OF j(2)] oldlt have "P j < x" "j < ht ar0 (P j)" by auto
    with pvP[OF j(1)] ht_old[of "P j"] ar_x(2)
    show "\<exists>p. pv ! j = Some p \<and> p < length ar \<and> p \<noteq> x \<and> j < ht ar p"
      by simp
  qed
  have l3: "x < length ar" using ar_x(2) by simp
  have l4: "\<forall>i\<in>set [0 ..< h]. i < ht ar x" using ht_x by simp
  from link_levels_spec[OF l1 l2 l3 l4]
  obtain ar' where lk: "link_levels x pv [0 ..< h] ar = Some ar'" and len': "length ar' = length ar"
    and pt: "\<And>a. a < length ar \<Longrightarrow> key (ar' ! a) = key (ar ! a) \<and> ht ar' a = ht ar a
          \<and> (\<forall>lev<ht ar a. nexts (ar' ! a) ! lev =
               (if lev \<in> set [0 ..< h]
                then (if a = x then nexts (ar ! the (pv ! lev)) ! lev
                      else if pv ! lev = Some a then Some x
                      else nexts (ar ! a) ! lev)
                else nexts (ar ! a) ! lev))"
    by blast
  define l' where "l' = l\<lparr>arena := ar', max_height := (if h > mh then h else mh), rnd := r'\<rparr>"
  have lk1: "link_levels x (fold (\<lambda>i p. p[i := Some head]) [mh ..< h] pv1) [0 ..< h] ar = Some ar'"
    if "mh < h"
    using lk that by (simp add: pv_def)
  have lk2: "link_levels x pv1 [0 ..< h] ar = Some ar'" if "\<not> mh < h"
    using lk that by (simp add: pv_def)
  have ins: "Insert l k = Some l'"
    unfolding Insert_def fge
    by (simp add: dup rh Let_def nn mh_def[symmetric] lk1 lk2 l'_def)
  \<comment> \<open>what the new arena holds\<close>
  have sel: "arena l' = ar'" "comparator l' = c" "max_height l' = max mh h" "rnd l' = r'"
    by (simp_all add: l'_def c_def max_def)
  have key_old: "key (ar' ! a) = K a" and ht'_old: "ht ar' a = ht ar0 a" if "a < x" for a
    using pt[of a] that ar_x(2) ar_old[OF that] ht_old[OF that] by (simp_all add: K_def)
  have key_x: "key (ar' ! x) = k" and ht'_x: "ht ar' x = h"
    using pt[of x] ar_x ht_x by simp_all
  have old: "\<forall>a\<in>set (head # lo @ hi). a \<noteq> x \<and> ht ar' a = ht ar0 a"
    using oldlt ht'_old by auto
  have ptn: "\<forall>a\<in>set (head # lo @ x # hi). \<forall>lev<ht ar' a. nexts (ar' ! a) ! lev =
               (if lev < h
                then (if a = x then nexts (ar0 ! last (filter (\<lambda>a. lev < ht ar0 a) (head # lo))) ! lev
                      else if last (filter (\<lambda>a. lev < ht ar0 a) (head # lo)) = a then Some x
                      else nexts (ar0 ! a) ! lev)
                else nexts (ar0 ! a) ! lev)"
  proof (intro ballI allI impI)
    fix a lev assume a: "a \<in> set (head # lo @ x # hi)" and lev: "lev < ht ar' a"
    have ax: "a < x \<or> a = x" using a oldlt by auto
    then have al: "a < length ar" using ar_x(2) by auto
    have lev2: "lev < ht ar a" using pt[OF al] lev by simp
    note n = pt[OF al, THEN conjunct2, THEN conjunct2, rule_format, OF lev2]
    show "nexts (ar' ! a) ! lev =
               (if lev < h
                then (if a = x then nexts (ar0 ! last (filter (\<lambda>a. lev < ht ar0 a) (head # lo))) ! lev
                      else if last (filter (\<lambda>a. lev < ht ar0 a) (head # lo)) = a then Some x
                      else nexts (ar0 ! a) ! lev)
                else nexts (ar0 ! a) ! lev)"
    proof (cases "lev < h")
      case True
      then have lk': "lev < kMaxHeight" using hb(2) by simp
      have pl: "pv ! lev = Some (P lev)" using pvP[OF True] .
      have plx: "P lev < x" using Pin[OF lk'] oldlt by auto
      show ?thesis
      proof (cases "a = x")
        case ax': True
        with n True pl ar_old[OF plx] show ?thesis
          by (simp add: P_def)
      next
        case False
        with ax have "a < x" by simp
        with n True pl False ar_old[of a] show ?thesis
          by (auto simp: P_def)
      qed
    next
      case False
      with lev ht'_x have "a \<noteq> x" by auto
      with ax have "a < x" by simp
      with n False ar_old[of a] show ?thesis
        by simp
    qed
  qed
  have lk0: "linked ar0 (head # lo @ hi)"
    using i(8) xs by simp
  have hh: "h \<le> ht ar0 head"
    using hb(2) i(2) by simp
  from linked_insert[OF lk0 dist old ht'_x hh ptn]
  have lnk: "linked ar' (head # lo @ x # hi)" .
  \<comment> \<open>the keys are still in order\<close>
  have srt: "sorted_wrt (\<lambda>a b. c (key (ar' ! a)) (key (ar' ! b)) < 0) (lo @ x # hi)"
  proof -
    let ?R' = "\<lambda>a b. c (key (ar' ! a)) (key (ar' ! b)) < 0"
    have xsx: "\<forall>a\<in>set xs. a < x" using i(6) by (simp add: x_def)
    have "sorted_wrt ?R' xs"
      using i(7)
    proof (rule sorted_wrt_mono_rel[rotated])
      fix a b assume "a \<in> set xs" "b \<in> set xs" "c (K a) (K b) < 0"
      with xsx key_old show "?R' a b" by simp
    qed
    then have s: "sorted_wrt ?R' lo" "sorted_wrt ?R' hi" "\<forall>a\<in>set lo. \<forall>b\<in>set hi. ?R' a b"
      unfolding xs sorted_wrt_append by blast+
    have lox: "\<forall>a\<in>set lo. ?R' a x"
    proof
      fix a assume a: "a \<in> set lo"
      then have "a \<in> set xs" using xs by simp
      with xsx key_old have "key (ar' ! a) = K a" by simp
      with loA a key_x show "?R' a x" by (simp add: A_def)
    qed
    have xhi: "\<forall>b\<in>set hi. ?R' x b"
    proof
      fix b assume b: "b \<in> set hi"
      then have bx: "b \<in> set xs" using xs by simp
      with xsx key_old have kb: "key (ar' ! b) = K b" by simp
      have "\<not> c (K b) k < 0" using hiA b by (simp add: A_def)
      moreover have "K b \<noteq> k" using fresh bx by (auto simp: K_def ar0_def)
      ultimately have "c k (K b) < 0"
        using total_order_trichotomy[OF tot] by (simp add: c_def)
      with kb key_x show "?R' x b" by simp
    qed
    have trans: "?R' a b \<Longrightarrow> ?R' b d \<Longrightarrow> ?R' a d" for a b d
      using tot unfolding total_order_def c_def by blast
    have "\<forall>a\<in>set lo. \<forall>b\<in>set (x # hi). ?R' a b"
      using lox s(3) by simp
    moreover have "sorted_wrt ?R' (x # hi)"
      using xhi s(2) by simp
    ultimately show ?thesis
      using s(1) unfolding sorted_wrt_append by blast
  qed
  have nodes: "\<forall>a\<in>set (lo @ x # hi). 0 < a \<and> a < length ar'
                 \<and> 1 \<le> ht ar' a \<and> ht ar' a \<le> max mh h"
  proof
    fix a assume "a \<in> set (lo @ x # hi)"
    then consider "a = x" | "a \<in> set xs" using xs by auto
    then show "0 < a \<and> a < length ar' \<and> 1 \<le> ht ar' a \<and> ht ar' a \<le> max mh h"
    proof cases
      case 1
      with hx ht'_x hb(1) len' ar_x(2) show ?thesis by (simp add: head_def)
    next
      case 2
      with i(6) have "0 < a" "a < x" "1 \<le> ht ar0 a" "ht ar0 a \<le> mh"
        by (auto simp: x_def)
      with ht'_old[of a] len' ar_x(2) show ?thesis by simp
    qed
  qed
  have dist': "distinct (lo @ x # hi)"
    using dist oldlt by auto
  have inv': "skiplist_inv l' (lo @ x # hi)"
    unfolding skiplist_inv_def sel
  proof (intro conjI)
    show "ar' \<noteq> []" using len' ar_x(2) by auto
    show "ht ar' head = kMaxHeight" using ht'_old[OF hx] i(2) by simp
    show "1 \<le> max mh h" using hb(1) by simp
    show "max mh h \<le> kMaxHeight" using hb(2) i(4) by simp
    show "distinct (lo @ x # hi)" by (rule dist')
    show "\<forall>a\<in>set (lo @ x # hi). 0 < a \<and> a < length ar' \<and> 1 \<le> ht ar' a \<and> ht ar' a \<le> max mh h"
      by (rule nodes)
    show "sorted_wrt (\<lambda>a b. c (key (ar' ! a)) (key (ar' ! b)) < 0) (lo @ x # hi)" by (rule srt)
    show "linked ar' (head # lo @ x # hi)" by (rule lnk)
  qed
  have top: "\<forall>lev. mh \<le> lev \<and> lev < h \<longrightarrow> nexts (ar' ! head) ! lev = Some x"
  proof (intro allI impI)
    fix lev assume lev: "mh \<le> lev \<and> lev < h"
    then have lm: "lev < kMaxHeight" using hb(2) by simp
    have "lev < ht ar' head" using ht'_old[OF hx] i(2) lm by simp
    moreover have "head \<in> set (head # lo @ x # hi)" by simp
    ultimately have "nexts (ar' ! head) ! lev =
               (if lev < h
                then (if head = x then nexts (ar0 ! P lev) ! lev
                      else if P lev = head then Some x
                      else nexts (ar0 ! head) ! lev)
                else nexts (ar0 ! head) ! lev)"
      using ptn unfolding P_def by blast
    with lev Phead[of lev] lm hx show "nexts (ar' ! head) ! lev = Some x"
      by simp
  qed
  have keys: "\<forall>a<length (arena l). key (arena l' ! a) = key (arena l ! a)"
    using key_old by (simp add: sel x_def K_def ar0_def)
  have "Insert l k = Some l' \<and> RandomHeight (rnd l) = (h, r')
      \<and> comparator l' = comparator l \<and> rnd l' = r'
      \<and> max_height l' = max (max_height l) h
      \<and> length (arena l') = Suc (length (arena l))
      \<and> skiplist_inv l' (takeWhile (\<lambda>a. comparator l (key (arena l ! a)) k < 0) xs
                          @ length (arena l) # dropWhile (\<lambda>a. comparator l (key (arena l ! a)) k < 0) xs)
      \<and> (\<forall>a<length (arena l). key (arena l' ! a) = key (arena l ! a))
      \<and> key (arena l' ! length (arena l)) = k
      \<and> ht (arena l') (length (arena l)) = h
      \<and> (\<forall>lev. max_height l \<le> lev \<and> lev < h \<longrightarrow>
            nexts (arena l' ! head) ! lev = Some (length (arena l)))"
    using ins rh sel inv' keys key_x ht'_x top len' ar_x(2)
    unfolding lo_def hi_def Adef x_def ar0_def mh_def c_def by simp
  then show ?thesis by blast
qed

lemma SkipList_new_inv: "skiplist_inv (SkipList_new c r) []"
  by (simp add: skiplist_inv_def SkipList_new_def NewNode_def ht_def head_def kMaxHeight_def)

lemma sorted_wrt_irrefl_distinct:
  "sorted_wrt R zs \<Longrightarrow> (\<forall>a. \<not> R a a) \<Longrightarrow> distinct zs"
  by (induction zs) auto

lemma Inserts_spec:
  fixes l :: "'k SkipList"
  assumes tot: "total_order (comparator l)"
  shows "skiplist_inv l xs \<Longrightarrow> distinct ks \<Longrightarrow>
    (\<lambda>a. key (arena l ! a)) ` set xs \<inter> set ks = {} \<Longrightarrow>
    \<exists>l' xs'. Inserts l ks = Some l' \<and> skiplist_inv l' xs' \<and> comparator l' = comparator l
       \<and> (\<lambda>a. key (arena l' ! a)) ` set xs' = (\<lambda>a. key (arena l ! a)) ` set xs \<union> set ks
       \<and> max_height l \<le> max_height l'"
  using tot
proof (induction ks arbitrary: l xs)
  case Nil
  then show ?case by auto
next
  case (Cons k ks)
  let ?K = "\<lambda>a. key (arena l ! a)"
  let ?A = "\<lambda>a. comparator l (key (arena l ! a)) k < 0"
  have fresh: "k \<notin> ?K ` set xs" using Cons.prems(3) by auto
  from Insert_spec[OF Cons.prems(1) Cons.prems(4) fresh]
  obtain l1 h where 1: "Insert l k = Some l1" "comparator l1 = comparator l"
    "max_height l1 = max (max_height l) h"
    "skiplist_inv l1 (takeWhile ?A xs @ length (arena l) # dropWhile ?A xs)"
    "\<forall>a<length (arena l). key (arena l1 ! a) = key (arena l ! a)"
    "key (arena l1 ! length (arena l)) = k"
    by blast
  let ?xs1 = "takeWhile ?A xs @ length (arena l) # dropWhile ?A xs"
  let ?K1 = "\<lambda>a. key (arena l1 ! a)"
  have lt: "\<forall>a\<in>set xs. a < length (arena l)"
    using inv_facts(2)[OF Cons.prems(1)] by blast
  have "set ?xs1 = insert (length (arena l)) (set xs)"
  proof -
    have e: "set (takeWhile ?A xs) \<union> set (dropWhile ?A xs) = set xs"
      by (metis set_append takeWhile_dropWhile_id)
    have "set ?xs1 = insert (length (arena l)) (set (takeWhile ?A xs) \<union> set (dropWhile ?A xs))"
      by auto
    then show ?thesis unfolding e .
  qed
  then have "?K1 ` set ?xs1 = insert (?K1 (length (arena l))) (?K1 ` set xs)"
    by simp
  also have "?K1 ` set xs = ?K ` set xs"
    using lt 1(5) by (intro image_cong) auto
  finally have keys1: "?K1 ` set ?xs1 = insert k (?K ` set xs)"
    using 1(6) by simp
  have d: "distinct ks" "k \<notin> set ks" using Cons.prems(2) by simp_all
  have disj: "?K1 ` set ?xs1 \<inter> set ks = {}"
    unfolding keys1 using Cons.prems(3) d(2) by auto
  have tot1: "total_order (comparator l1)" using Cons.prems(4) 1(2) by simp
  from Cons.IH[OF 1(4) d(1) disj tot1]
  obtain l' xs' where 2: "Inserts l1 ks = Some l'" "skiplist_inv l' xs'"
    "comparator l' = comparator l1"
    "(\<lambda>a. key (arena l' ! a)) ` set xs' = ?K1 ` set ?xs1 \<union> set ks"
    "max_height l1 \<le> max_height l'"
    by blast
  have "Inserts l (k # ks) = Some l'" using 1(1) 2(1) by simp
  moreover have "(\<lambda>a. key (arena l' ! a)) ` set xs' = ?K ` set xs \<union> set (k # ks)"
    unfolding 2(4) keys1 by auto
  moreover have "max_height l \<le> max_height l'" using 1(3) 2(5) by simp
  ultimately show ?case
    using 2(2,3) 1(2) by auto
qed

lemma Inserts_new:
  fixes c :: "'k::zero \<Rightarrow> 'k \<Rightarrow> int"
  assumes "total_order c" "distinct ks"
  shows "\<exists>l xs. Inserts (SkipList_new c r) ks = Some l \<and> skiplist_inv l xs \<and> comparator l = c
       \<and> (\<lambda>a. key (arena l ! a)) ` set xs = set ks"
proof -
  have c: "comparator (SkipList_new c r) = c" by (simp add: SkipList_new_def)
  have t: "total_order (comparator (SkipList_new c r))" using assms(1) c by simp
  from Inserts_spec[OF t SkipList_new_inv[of c r] assms(2)] c show ?thesis
    by auto
qed

section \<open>The skip list: the claims\<close>

lemma total_order_int_minus: "total_order (\<lambda>a b. a - b :: int)"
  by (auto simp: total_order_def)

text \<open>
  C1. For every list of pairwise distinct keys inserted one after the other by a single
  writer into a new skip list, under a comparator that is a strict total order and
  whatever the random source answers: every \<open>Insert\<close> returns; \<open>Contains\<close> returns true
  for every key inserted and false for every other key; and the walk from \<open>SeekToFirst\<close>
  through \<open>Next\<close> until the iterator is no longer valid terminates and visits exactly
  the keys inserted, each once, in strictly increasing order under the comparator.
\<close>
theorem Contains_and_scan_after_Inserts:
  fixes c :: "'k::zero \<Rightarrow> 'k \<Rightarrow> int"
  assumes "total_order c" and "distinct ks"
  shows "\<exists>l. Inserts (SkipList_new c r) ks = Some l
     \<and> (\<forall>k. Contains l k = Some (k \<in> set ks))
     \<and> (\<exists>visited. scan l = Some visited \<and> set visited = set ks \<and> distinct visited
          \<and> sorted_wrt (\<lambda>a b. c a b < 0) visited)"
proof -
  from Inserts_new[OF assms, of r]
  obtain l xs where l: "Inserts (SkipList_new c r) ks = Some l" "skiplist_inv l xs"
    "comparator l = c" "(\<lambda>a. key (arena l ! a)) ` set xs = set ks"
    by blast
  have tot: "total_order (comparator l)" using assms(1) l(3) by simp
  let ?v = "map (\<lambda>a. key (arena l ! a)) xs"
  have con: "\<forall>k. Contains l k = Some (k \<in> set ks)"
    using Contains_spec[OF l(2) tot] l(4) by simp
  have sc: "scan l = Some ?v"
    using scan_spec[OF l(2)] .
  have srt: "sorted_wrt (\<lambda>a b. c a b < 0) ?v"
    using inv_facts(6)[OF l(2)] l(3) by (simp add: sorted_wrt_map)
  have "\<forall>a. \<not> c a a < 0"
    using assms(1) unfolding total_order_def by (metis less_irrefl)
  with srt have "distinct ?v"
    by (rule sorted_wrt_irrefl_distinct)
  moreover have "set ?v = set ks" using l(4) by simp
  ultimately show ?thesis
    using l(1) con sc srt by blast
qed

theorem Contains_and_scan_witness:
  "total_order (\<lambda>a b. a - b :: int) \<and> distinct [5, 1, 9, 3 :: int]
   \<and> (\<exists>l. Inserts (SkipList_new (\<lambda>a b. a - b) [True, False, False, True, True, False]) [5, 1, 9, 3 :: int]
             = Some l
         \<and> Contains l 3 = Some True \<and> Contains l 4 = Some False
         \<and> scan l = Some [1, 3, 5, 9])"
proof -
  let ?r = "[True, False, False, True, True, False]"
  have d: "distinct [5, 1, 9, 3 :: int]" by simp
  have e: "Option.bind (Inserts (SkipList_new (\<lambda>a b. a - b) ?r) [5, 1, 9, 3 :: int]) scan
           = Some [1, 3, 5, 9]"
    by code_simp
  from Contains_and_scan_after_Inserts[OF total_order_int_minus d, of ?r]
  obtain l where l: "Inserts (SkipList_new (\<lambda>a b. a - b) ?r) [5, 1, 9, 3 :: int] = Some l"
    "\<forall>k. Contains l k = Some (k \<in> set [5, 1, 9, 3])"
    by blast
  from l(2) have "Contains l 3 = Some True" "Contains l 4 = Some False"
    by simp_all
  moreover from e l(1) have "scan l = Some [1, 3, 5, 9]"
    by simp
  ultimately show ?thesis
    using total_order_int_minus d l(1) by blast
qed


text \<open>
  C6. At every \<open>Insert\<close> of a new key after any sequence of inserts of distinct keys into
  a new skip list: the height sampled for the new node lies in 1 .. 12 (as it does for
  every state of the random source); \<open>max_height_\<close> lies in 1 .. 12 before and after,
  does not decrease, and is afterwards the larger of its old value and the height of the
  new node; and when the new node is taller than the old \<open>max_height_\<close>, the counter is
  its height and the head links to the new node at every level from the old
  \<open>max_height_\<close> up to that height.
\<close>
theorem max_height_after_Insert:
  fixes c :: "'k::zero \<Rightarrow> 'k \<Rightarrow> int"
  assumes "total_order c" and "distinct (ks @ [k])"
  shows "\<exists>l l' h r'. Inserts (SkipList_new c r) ks = Some l \<and> Insert l k = Some l'
     \<and> RandomHeight (rnd l) = (h, r')
     \<and> 1 \<le> h \<and> h \<le> kMaxHeight
     \<and> (\<forall>r0. 1 \<le> fst (RandomHeight r0) \<and> fst (RandomHeight r0) \<le> kMaxHeight)
     \<and> 1 \<le> max_height l \<and> max_height l \<le> max_height l' \<and> max_height l' \<le> kMaxHeight
     \<and> max_height l' = max (max_height l) h
     \<and> key (arena l' ! length (arena l)) = k \<and> ht (arena l') (length (arena l)) = h
     \<and> (max_height l < h \<longrightarrow>
           max_height l' = h
           \<and> (\<forall>lev. max_height l \<le> lev \<and> lev < h \<longrightarrow>
                 nexts (arena l' ! head) ! lev = Some (length (arena l))))"
proof -
  have d: "distinct ks" "k \<notin> set ks" using assms(2) by simp_all
  from Inserts_new[OF assms(1) d(1), of r]
  obtain l xs where l: "Inserts (SkipList_new c r) ks = Some l" "skiplist_inv l xs"
    "comparator l = c" "(\<lambda>a. key (arena l ! a)) ` set xs = set ks"
    by blast
  have tot: "total_order (comparator l)" using assms(1) l(3) by simp
  have fresh: "k \<notin> (\<lambda>a. key (arena l ! a)) ` set xs" using l(4) d(2) by simp
  from Insert_spec[OF l(2) tot fresh]
  obtain l' h r' xs' where i: "Insert l k = Some l'" "RandomHeight (rnd l) = (h, r')"
    "max_height l' = max (max_height l) h" "skiplist_inv l' xs'"
    "key (arena l' ! length (arena l)) = k" "ht (arena l') (length (arena l)) = h"
    "\<forall>lev. max_height l \<le> lev \<and> lev < h \<longrightarrow>
            nexts (arena l' ! head) ! lev = Some (length (arena l))"
    by blast
  have hb: "1 \<le> h" "h \<le> kMaxHeight"
    using RandomHeight_bounds[OF i(2)] by simp_all
  have rb: "\<forall>r0. 1 \<le> fst (RandomHeight r0) \<and> fst (RandomHeight r0) \<le> kMaxHeight"
  proof
    fix r0
    show "1 \<le> fst (RandomHeight r0) \<and> fst (RandomHeight r0) \<le> kMaxHeight"
      using RandomHeight_bounds[of r0 "fst (RandomHeight r0)" "snd (RandomHeight r0)"] by simp
  qed
  have m: "1 \<le> max_height l" "max_height l \<le> kMaxHeight"
    using l(2) unfolding skiplist_inv_def by blast+
  have m': "max_height l \<le> max_height l'" "max_height l' \<le> kMaxHeight"
    "max_height l < h \<longrightarrow> max_height l' = h"
    using i(3) m hb by simp_all
  show ?thesis
    using l(1) i(1,2,3,5,6,7) hb rb m m' by blast
qed

theorem max_height_after_Insert_witness:
  "total_order (\<lambda>a b. a - b :: int) \<and> distinct ([5, 1] @ [9 :: int])
   \<and> (\<exists>l l'. Inserts (SkipList_new (\<lambda>a b. a - b) [True, False, False, True, True, False]) [5, 1 :: int]
               = Some l
         \<and> Insert l 9 = Some l'
         \<and> RandomHeight (rnd l) = (3, [])
         \<and> max_height l = 2 \<and> max_height l' = 3
         \<and> nexts (arena l' ! head) ! 2 = Some 3)"
proof -
  let ?r = "[True, False, False, True, True, False]"
  let ?l = "Inserts (SkipList_new (\<lambda>a b. a - b) ?r) [5, 1 :: int]"
  have d: "distinct ([5, 1] @ [9 :: int])" by simp
  have e: "map_option max_height ?l = Some 2" "map_option rnd ?l = Some [True, True, False]"
    "map_option (\<lambda>l. length (arena l)) ?l = Some 3"
    by code_simp+
  have rh: "RandomHeight [True, True, False] = (3, [])"
    by code_simp
  from max_height_after_Insert[OF total_order_int_minus d, of ?r]
  obtain l l' h r' where t: "?l = Some l" "Insert l 9 = Some l'" "RandomHeight (rnd l) = (h, r')"
    "max_height l' = max (max_height l) h"
    "max_height l < h \<longrightarrow> (\<forall>lev. max_height l \<le> lev \<and> lev < h \<longrightarrow>
                 nexts (arena l' ! head) ! lev = Some (length (arena l)))"
    by blast
  from e t(1) have v: "max_height l = 2" "rnd l = [True, True, False]" "length (arena l) = 3"
    by simp_all
  from t(3) v(2) rh have h: "h = 3" "RandomHeight (rnd l) = (3, [])" by simp_all
  from t(4) v(1) h(1) have "max_height l' = 3" by simp
  moreover from t(5) v(1,3) h(1) have "nexts (arena l' ! head) ! 2 = Some 3" by simp
  ultimately show ?thesis
    using total_order_int_minus d t(1,2) h(2) v(1) by blast
qed

text \<open>
  C8. After the keys 5, 1, 9, 3 are inserted into a new skip list of integers (under a
  comparator that orders the integers as usual, whatever the random source answers),
  \<open>Seek(4)\<close> positions an iterator at the entry with key 5, \<open>SeekToLast\<close> positions it at
  key 9, and \<open>Prev\<close> from there positions it at key 5.
\<close>
theorem Seek_SeekToLast_Prev_scenario:
  fixes c :: "int \<Rightarrow> int \<Rightarrow> int"
  assumes "total_order c" and "\<forall>a b. (c a b < 0) = (a < b)"
  shows "\<exists>l. Inserts (SkipList_new c r) [5, 1, 9, 3] = Some l
     \<and> (\<exists>it. Seek l 4 = Some it \<and> Valid it \<and> Iterator_key l it = Some 5)
     \<and> (\<exists>it. SeekToLast l = Some it \<and> Valid it \<and> Iterator_key l it = Some 9
          \<and> (\<exists>it'. Iterator_Prev l it = Some it' \<and> Valid it' \<and> Iterator_key l it' = Some 5))"
proof -
  have d: "distinct [5, 1, 9, 3 :: int]" by simp
  from Inserts_new[OF assms(1) d, of r]
  obtain l xs where l: "Inserts (SkipList_new c r) [5, 1, 9, 3] = Some l" "skiplist_inv l xs"
    "comparator l = c" "(\<lambda>a. key (arena l ! a)) ` set xs = set [5, 1, 9, 3]"
    by blast
  have tot: "total_order (comparator l)" using assms(1) l(3) by simp
  let ?K = "\<lambda>a. key (arena l ! a)"
  have cK: "(comparator l (?K a) k < 0) = (?K a < k)" for a k
    using assms(2) l(3) by simp
  have "sorted_wrt (\<lambda>a b. ?K a < ?K b) xs"
    using inv_facts(6)[OF l(2)] by (simp add: cK)
  then have "sorted_wrt (<) (map ?K xs)"
    by (simp add: sorted_wrt_map)
  then have "sorted (map ?K xs)" "distinct (map ?K xs)"
    by (simp_all add: strict_sorted_iff)
  moreover have "sorted [1, 3, 5, 9 :: int]" "distinct [1, 3, 5, 9 :: int]" by simp_all
  moreover have "set (map ?K xs) = set [1, 3, 5, 9 :: int]" using l(4) by auto
  ultimately have "map ?K xs = [1, 3, 5, 9]"
    by (rule sorted_distinct_set_unique)
  then obtain a1 a3 a5 a9 where xs: "xs = [a1, a3, a5, a9]"
    and K: "?K a1 = 1" "?K a3 = 3" "?K a5 = 5" "?K a9 = 9"
    by (auto simp: map_eq_Cons_conv)
  from l(2) have nodes: "\<forall>a\<in>set xs. 0 < a \<and> a < length (arena l)"
    unfolding skiplist_inv_def by blast
  have v: "a5 < length (arena l)" "a9 < length (arena l)" "a5 \<noteq> head" "a9 \<noteq> head"
    using nodes xs by (auto simp: head_def)
  have k5: "Iterator_key l \<lparr>node = Some a5\<rparr> = Some 5"
    and k9: "Iterator_key l \<lparr>node = Some a9\<rparr> = Some 9"
    using v K by (simp_all add: Iterator_key_def deref_def)
  have "Seek l 4 = Some \<lparr>node = Some a5\<rparr>"
    using Seek_spec[OF l(2) tot, of 4] by (simp add: cK xs K)
  then have 1: "\<exists>it. Seek l 4 = Some it \<and> Valid it \<and> Iterator_key l it = Some 5"
    using k5 by (simp add: Valid_def)
  have last: "SeekToLast l = Some \<lparr>node = Some a9\<rparr>"
    using FindLast_spec[OF l(2)] v by (simp add: SeekToLast_def xs)
  have "FindLessThan l 9 = Some a5"
    using FindLessThan_spec[OF l(2) tot, of 9] by (simp add: cK xs K)
  then have "Iterator_Prev l \<lparr>node = Some a9\<rparr> = Some \<lparr>node = Some a5\<rparr>"
    using k9 v by (simp add: Iterator_Prev_def)
  with last k9 k5 have 2: "\<exists>it. SeekToLast l = Some it \<and> Valid it \<and> Iterator_key l it = Some 9
          \<and> (\<exists>it'. Iterator_Prev l it = Some it' \<and> Valid it' \<and> Iterator_key l it' = Some 5)"
    by (simp add: Valid_def)
  from l(1) 1 2 show ?thesis by blast
qed

theorem Seek_SeekToLast_Prev_witness:
  "total_order (\<lambda>a b. a - b :: int) \<and> (\<forall>a b :: int. (a - b < 0) = (a < b))
   \<and> (\<exists>l. Inserts (SkipList_new (\<lambda>a b. a - b) [True, False, False, True, True, False]) [5, 1, 9, 3 :: int]
             = Some l
         \<and> Seek l 4 = Some \<lparr>node = Some 1\<rparr> \<and> Iterator_key l \<lparr>node = Some 1\<rparr> = Some 5
         \<and> SeekToLast l = Some \<lparr>node = Some 3\<rparr> \<and> Iterator_key l \<lparr>node = Some 3\<rparr> = Some 9
         \<and> Iterator_Prev l \<lparr>node = Some 3\<rparr> = Some \<lparr>node = Some 1\<rparr>)"
proof -
  let ?r = "[True, False, False, True, True, False]"
  let ?l = "Inserts (SkipList_new (\<lambda>a b. a - b) ?r) [5, 1, 9, 3 :: int]"
  have o: "\<forall>a b :: int. (a - b < 0) = (a < b)" by simp
  have e: "Option.bind ?l (\<lambda>l. Seek l 4) = Some \<lparr>node = Some 1\<rparr>"
    "Option.bind ?l (\<lambda>l. Iterator_key l \<lparr>node = Some 1\<rparr>) = Some 5"
    "Option.bind ?l SeekToLast = Some \<lparr>node = Some 3\<rparr>"
    "Option.bind ?l (\<lambda>l. Iterator_key l \<lparr>node = Some 3\<rparr>) = Some 9"
    "Option.bind ?l (\<lambda>l. Iterator_Prev l \<lparr>node = Some 3\<rparr>) = Some \<lparr>node = Some 1\<rparr>"
    by code_simp+
  from Seek_SeekToLast_Prev_scenario[OF total_order_int_minus o, of ?r]
  obtain l where l: "?l = Some l" by blast
  with e have "Seek l 4 = Some \<lparr>node = Some 1\<rparr>" "Iterator_key l \<lparr>node = Some 1\<rparr> = Some 5"
    "SeekToLast l = Some \<lparr>node = Some 3\<rparr>" "Iterator_key l \<lparr>node = Some 3\<rparr> = Some 9"
    "Iterator_Prev l \<lparr>node = Some 3\<rparr> = Some \<lparr>node = Some 1\<rparr>"
    by simp_all
  with total_order_int_minus o l show ?thesis by blast
qed

end
